theory Spec2Isabelle
  imports Complex_Main "HOL-Library.Word" "HOL-Library.Log_Nat"
begin

unbundle bit_operations_syntax

section \<open>Data model of SuperHaxagon.cpp\<close>

text \<open>
  \<open>DWORD\<close> is an unsigned 32-bit integer, \<open>BYTE\<close> an unsigned 8-bit integer.
  Addresses in the attached process are \<open>DWORD\<close>s.
\<close>

type_synonym DWORD = "32 word"
type_synonym BYTE = "8 word"

text \<open>
  Every \<open>assert\<close> of the source ends the run when its condition is false; the unsigned
  division and remainder of C++ are undefined for a zero divisor (the processor traps).
  Both are results of the model.
\<close>

datatype error = AssertionFailed | DivisionByZero | FloatToIntOutOfRange

text \<open>The packed 20-byte record \<open>SuperHexagonApi::Wall\<close>.\<close>

record Wall =
  slot :: DWORD
  distance :: DWORD
  enabled :: BYTE
  fill1 :: "BYTE list"
  unk2 :: DWORD
  unk3 :: DWORD

section \<open>Slot selection (the body of the loop in \<open>main\<close>)\<close>

text \<open>
  The lambda handed to \<open>std::for_each\<close>: a wall with \<open>distance > 0\<close> and a non-zero
  \<open>enabled\<close> byte lowers the entry of its slot, taken modulo \<open>numSlots\<close>. The index is
  below \<open>numSlots\<close>, the length of the vector, whenever the remainder is defined.
\<close>

definition lower_min :: "DWORD \<Rightarrow> DWORD list \<Rightarrow> Wall \<Rightarrow> error + DWORD list" where
  "lower_min numSlots minDistances a =
     (if 0 < distance a \<and> enabled a \<noteq> 0 then
        (if numSlots = 0 then Inl DivisionByZero
         else Inr (minDistances[unat (slot a mod numSlots) :=
                     min (minDistances ! unat (slot a mod numSlots)) (distance a)]))
      else Inr minDistances)"

text \<open>\<open>std::for_each\<close> over the walls, in memory order; an undefined step ends the run.\<close>

fun for_each_wall :: "DWORD \<Rightarrow> DWORD list \<Rightarrow> Wall list \<Rightarrow> error + DWORD list" where
  "for_each_wall numSlots minDistances [] = Inr minDistances"
| "for_each_wall numSlots minDistances (a # as) =
     (case lower_min numSlots minDistances a of
        Inl e \<Rightarrow> Inl e
      | Inr minDistances' \<Rightarrow> for_each_wall numSlots minDistances' as)"

text \<open>
  \<open>std::max_element\<close>: the position of the first greatest element; the scan replaces the
  candidate only by a strictly greater element. On an empty range it returns the end
  iterator, whose distance from \<open>begin\<close> is 0.
\<close>

fun max_scan :: "DWORD \<Rightarrow> nat \<Rightarrow> nat \<Rightarrow> DWORD list \<Rightarrow> nat" where
  "max_scan largest pos i [] = pos"
| "max_scan largest pos i (x # xs) =
     (if largest < x then max_scan x i (Suc i) xs else max_scan largest pos (Suc i) xs)"

definition max_element :: "DWORD list \<Rightarrow> nat" where
  "max_element xs = (case xs of [] \<Rightarrow> 0 | x # rest \<Rightarrow> max_scan x 0 1 rest)"

text \<open>
  Lines 241 to 250: the vector \<open>minDistances(numSlots, -1)\<close>, the pass over the walls and
  the index of the greatest entry, converted to \<open>DWORD\<close>.
\<close>

definition min_distances :: "DWORD \<Rightarrow> Wall list \<Rightarrow> error + DWORD list" where
  "min_distances numSlots ws = for_each_wall numSlots (replicate (unat numSlots) (- 1)) ws"

definition target_slot :: "DWORD \<Rightarrow> Wall list \<Rightarrow> error + DWORD" where
  "target_slot numSlots ws =
     (case min_distances numSlots ws of
        Inl e \<Rightarrow> Inl e
      | Inr minDistances \<Rightarrow> Inr (of_nat (max_element minDistances)))"

text \<open>
  The reading of the specification, to compare with: an obstacle counts when it is enabled
  and its distance is positive, and the minimum of a slot is the least distance of the
  obstacles that count and fall into the slot, or the greatest \<open>DWORD\<close> when there is none.
\<close>

definition live :: "Wall \<Rightarrow> bool" where
  "live a \<longleftrightarrow> enabled a \<noteq> 0 \<and> 0 < distance a"

definition nearest :: "DWORD \<Rightarrow> Wall list \<Rightarrow> nat \<Rightarrow> DWORD" where
  "nearest numSlots ws s =
     Min (set ((- 1) # map distance (filter (\<lambda>a. live a \<and> unat (slot a mod numSlots) = s) ws)))"

text \<open>The scenario of the specification: six slots, a wall in slot 0 and one in slot 2.\<close>

definition scenario :: "Wall list" where
  "scenario =
     [\<lparr>slot = 0, distance = 50, enabled = 1, fill1 = [0, 0, 0], unk2 = 0, unk3 = 0\<rparr>,
      \<lparr>slot = 2, distance = 10, enabled = 1, fill1 = [0, 0, 0], unk2 = 0, unk3 = 0\<rparr>]"

section \<open>Remote memory (\<open>struct Memory\<close>)\<close>

text \<open>
  The address space of the attached process: a byte at every accessible address, \<open>None\<close>
  where the process has no accessible page. Nothing but this program changes it between two
  calls (the game is taken to stand still during one call sequence).
\<close>

type_synonym memory = "DWORD \<Rightarrow> BYTE option"

text \<open>
  What one call of \<open>ReadProcessMemory\<close> or \<open>WriteProcessMemory\<close> hands back: the
  \<open>BOOL\<close> it returns, the byte count it stores through its last argument, and what it
  produced (the filled buffer of a read, the memory of the target after a write).
\<close>

record 'a os_call =
  success :: bool
  count :: nat
  outcome :: 'a

text \<open>\<open>assert(success && numRead == sizeof(T))\<close>: the run ends unless the call was complete.\<close>

definition assert_complete :: "nat \<Rightarrow> 'a os_call \<Rightarrow> error + 'a" where
  "assert_complete requested r =
     (if success r \<and> count r = requested then Inr (outcome r) else Inl AssertionFailed)"

text \<open>
  Plain data crosses the process boundary as its bytes; x86 stores a \<open>DWORD\<close> with the
  least significant byte first.
\<close>

definition bytes_of_DWORD :: "DWORD \<Rightarrow> BYTE list" where
  "bytes_of_DWORD w = [ucast w, ucast (drop_bit 8 w), ucast (drop_bit 16 w), ucast (drop_bit 24 w)]"

definition DWORD_of_bytes :: "BYTE list \<Rightarrow> DWORD" where
  "DWORD_of_bytes bs = horner_sum ucast 256 bs"

text \<open>
  The members of \<open>Memory\<close>, over the system call of the handle \<open>hProcess\<close>. The two
  overloads of \<open>Read<T>\<close> make the same call and the same assertion; \<open>T\<close> enters by its
  size and by the value its bytes denote. \<open>Write<T>\<close> gets the bytes of the value.
\<close>

definition Memory_Read ::
  "nat \<Rightarrow> (BYTE list \<Rightarrow> 'a) \<Rightarrow> (DWORD \<Rightarrow> nat \<Rightarrow> BYTE list os_call) \<Rightarrow> DWORD \<Rightarrow> error + 'a" where
  "Memory_Read sizeof_T of_bytes rpm address =
     (case assert_complete sizeof_T (rpm address sizeof_T) of
        Inl e \<Rightarrow> Inl e
      | Inr data \<Rightarrow> Inr (of_bytes data))"

definition Memory_ReadBytes ::
  "(DWORD \<Rightarrow> nat \<Rightarrow> BYTE list os_call) \<Rightarrow> DWORD \<Rightarrow> nat \<Rightarrow> error + BYTE list" where
  "Memory_ReadBytes rpm address len = assert_complete len (rpm address len)"

definition Memory_Write ::
  "(DWORD \<Rightarrow> BYTE list \<Rightarrow> 'm os_call) \<Rightarrow> DWORD \<Rightarrow> BYTE list \<Rightarrow> error + 'm" where
  "Memory_Write wpm address data = assert_complete (length data) (wpm address data)"

subsection \<open>The system calls on the address space\<close>

fun load :: "memory \<Rightarrow> DWORD \<Rightarrow> nat \<Rightarrow> BYTE option list" where
  "load m a 0 = []"
| "load m a (Suc n) = m a # load m (a + 1) n"

fun store :: "memory \<Rightarrow> DWORD \<Rightarrow> BYTE list \<Rightarrow> memory" where
  "store m a [] = m"
| "store m a (b # bs) = store (m(a \<mapsto> b)) (a + 1) bs"

definition accessible :: "memory \<Rightarrow> DWORD \<Rightarrow> nat \<Rightarrow> bool" where
  "accessible m a n = list_all (\<lambda>c. c \<noteq> None) (load m a n)"

text \<open>
  Both calls need the whole area accessible; otherwise they fail and transfer nothing.
\<close>

definition ReadProcessMemory :: "memory \<Rightarrow> DWORD \<Rightarrow> nat \<Rightarrow> BYTE list os_call" where
  "ReadProcessMemory m a n =
     (if accessible m a n
      then \<lparr>success = True, count = n, outcome = map the (load m a n)\<rparr>
      else \<lparr>success = False, count = 0, outcome = []\<rparr>)"

definition WriteProcessMemory :: "memory \<Rightarrow> DWORD \<Rightarrow> BYTE list \<Rightarrow> memory os_call" where
  "WriteProcessMemory m a bs =
     (if accessible m a (length bs)
      then \<lparr>success = True, count = length bs, outcome = store m a bs\<rparr>
      else \<lparr>success = False, count = 0, outcome = m\<rparr>)"

definition Read_DWORD :: "memory \<Rightarrow> DWORD \<Rightarrow> error + DWORD" where
  "Read_DWORD m address = Memory_Read 4 DWORD_of_bytes (ReadProcessMemory m) address"

definition ReadBytes :: "memory \<Rightarrow> DWORD \<Rightarrow> nat \<Rightarrow> error + BYTE list" where
  "ReadBytes m address len = Memory_ReadBytes (ReadProcessMemory m) address len"

definition Write_DWORD :: "memory \<Rightarrow> DWORD \<Rightarrow> DWORD \<Rightarrow> error + memory" where
  "Write_DWORD m address data = Memory_Write (WriteProcessMemory m) address (bytes_of_DWORD data)"

definition Write_BYTE :: "memory \<Rightarrow> DWORD \<Rightarrow> BYTE \<Rightarrow> error + memory" where
  "Write_BYTE m address data = Memory_Write (WriteProcessMemory m) address [data]"

section \<open>Single-precision arithmetic\<close>

text \<open>
  \<open>GetPlayerSlot\<close> computes in \<open>float\<close>, the IEEE 754 binary32 format, where every
  conversion and every operation yields the exact result rounded to the nearest value with
  a significand of 24 bits, ties going to the even significand (the operations are taken to
  be carried out in single precision, as SSE code does). The values that occur are
  zero or lie between \<open>1 / 360\<close> and \<open>2 ^ 56\<close>, well inside the normal range of the
  format, and they are rational; so a \<open>float\<close> is modelled by the rational it denotes.

  \<open>exponent_of x\<close> is the exponent \<open>e\<close> with \<open>2 ^ e \<le> x < 2 ^ (e + 1)\<close> for a positive
  \<open>x\<close>, found from the bit lengths of numerator and denominator; the unit in the last place
  of the significand is then \<open>2 ^ (e - 23)\<close>.
\<close>

definition round_to_even :: "rat \<Rightarrow> int" where
  "round_to_even x =
     (let f = \<lfloor>x\<rfloor>; r = x - of_int f in
      if r < 1 / 2 then f else if 1 / 2 < r then f + 1 else if even f then f else f + 1)"

definition exponent_of :: "rat \<Rightarrow> int" where
  "exponent_of x =
     (case quotient_of x of (n, d) \<Rightarrow>
        let e = bitlen n - bitlen d in
        if 2 powi e \<le> x then e else e - 1)"

definition float_round :: "rat \<Rightarrow> rat" where
  "float_round x =
     (if x = 0 then 0
      else let u = 2 powi (exponent_of x - 23) in of_int (round_to_even (x / u)) * u)"

section \<open>\<open>struct SuperHexagonApi\<close>\<close>

abbreviation Offsets_BasePointer :: DWORD where "Offsets_BasePointer \<equiv> 0x694B00"
abbreviation Offsets_NumSlots :: DWORD where "Offsets_NumSlots \<equiv> 0x1BC"
abbreviation Offsets_NumWalls :: DWORD where "Offsets_NumWalls \<equiv> 0x2930"
abbreviation Offsets_FirstWall :: DWORD where "Offsets_FirstWall \<equiv> 0x220"
abbreviation Offsets_PlayerAngle :: DWORD where "Offsets_PlayerAngle \<equiv> 0x2958"
abbreviation Offsets_PlayerAngle2 :: DWORD where "Offsets_PlayerAngle2 \<equiv> 0x2954"
abbreviation Offsets_MouseDownLeft :: DWORD where "Offsets_MouseDownLeft \<equiv> 0x42858"
abbreviation Offsets_MouseDownRight :: DWORD where "Offsets_MouseDownRight \<equiv> 0x4285A"
abbreviation Offsets_MouseDown :: DWORD where "Offsets_MouseDown \<equiv> 0x42C45"
abbreviation Offsets_WorldAngle :: DWORD where "Offsets_WorldAngle \<equiv> 0x1AC"

record SuperHexagonApi =
  appBase :: DWORD
  walls :: "Wall list"

text \<open>The constructor reads the base pointer and asserts that it is not null.\<close>

definition SuperHexagonApi_new :: "memory \<Rightarrow> error + SuperHexagonApi" where
  "SuperHexagonApi_new m =
     (case Read_DWORD m Offsets_BasePointer of
        Inl e \<Rightarrow> Inl e
      | Inr base \<Rightarrow> if base \<noteq> 0 then Inr \<lparr>appBase = base, walls = []\<rparr> else Inl AssertionFailed)"

definition GetNumSlots :: "SuperHexagonApi \<Rightarrow> memory \<Rightarrow> error + DWORD" where
  "GetNumSlots api m = Read_DWORD m (appBase api + Offsets_NumSlots)"

definition GetNumWalls :: "SuperHexagonApi \<Rightarrow> memory \<Rightarrow> error + DWORD" where
  "GetNumWalls api m = Read_DWORD m (appBase api + Offsets_NumWalls)"

text \<open>One wall from its 20 bytes, and \<open>numWalls\<close> walls from the buffer \<open>walls.data()\<close>.\<close>

definition Wall_of_bytes :: "BYTE list \<Rightarrow> Wall" where
  "Wall_of_bytes bs =
     \<lparr>slot = DWORD_of_bytes (take 4 bs),
      distance = DWORD_of_bytes (take 4 (drop 4 bs)),
      enabled = bs ! 8,
      fill1 = take 3 (drop 9 bs),
      unk2 = DWORD_of_bytes (take 4 (drop 12 bs)),
      unk3 = DWORD_of_bytes (take 4 (drop 16 bs))\<rparr>"

fun Walls_of_bytes :: "nat \<Rightarrow> BYTE list \<Rightarrow> Wall list" where
  "Walls_of_bytes 0 bs = []"
| "Walls_of_bytes (Suc n) bs = Wall_of_bytes (take 20 bs) # Walls_of_bytes n (drop 20 bs)"

text \<open>
  \<open>UpdateWalls\<close>: the old walls are dropped, the count is read, and \<open>sizeof(Wall) * numWalls\<close>
  bytes are read into the resized vector. The allocation is taken to succeed, and the byte
  count not to wrap around (a count for which it would is beyond what \<open>resize\<close> accepts
  where \<open>size_t\<close> has 32 bits).
\<close>

definition UpdateWalls :: "SuperHexagonApi \<Rightarrow> memory \<Rightarrow> error + SuperHexagonApi" where
  "UpdateWalls api m =
     (case GetNumWalls api m of
        Inl e \<Rightarrow> Inl e
      | Inr numWalls \<Rightarrow>
          (case ReadBytes m (appBase api + Offsets_FirstWall) (20 * unat numWalls) of
             Inl e \<Rightarrow> Inl e
           | Inr data \<Rightarrow> Inr (api\<lparr>walls := Walls_of_bytes (unat numWalls) data\<rparr>)))"

definition GetPlayerAngle :: "SuperHexagonApi \<Rightarrow> memory \<Rightarrow> error + DWORD" where
  "GetPlayerAngle api m = Read_DWORD m (appBase api + Offsets_PlayerAngle)"

text \<open>
  \<open>SetPlayerSlot\<close>. The slot count is read three times, once for each operand; the
  undefined \<open>360 / 0\<close>, \<open>slot % 0\<close> and \<open>180 / 0\<close> end the run. The angle is written to
  \<open>PlayerAngle\<close> first and to \<open>PlayerAngle2\<close> second.
\<close>

definition SetPlayerSlot :: "SuperHexagonApi \<Rightarrow> memory \<Rightarrow> DWORD \<Rightarrow> error + memory" where
  "SetPlayerSlot api m slot' =
     (case GetNumSlots api m of
        Inl e \<Rightarrow> Inl e
      | Inr n1 \<Rightarrow>
     (case GetNumSlots api m of
        Inl e \<Rightarrow> Inl e
      | Inr n2 \<Rightarrow>
     (case GetNumSlots api m of
        Inl e \<Rightarrow> Inl e
      | Inr n3 \<Rightarrow>
          if n1 = 0 \<or> n2 = 0 \<or> n3 = 0 then Inl DivisionByZero
          else
            let angle = 360 div n1 * (slot' mod n2) + 180 div n3 in
            (case Write_DWORD m (appBase api + Offsets_PlayerAngle) angle of
               Inl e \<Rightarrow> Inl e
             | Inr m' \<Rightarrow> Write_DWORD m' (appBase api + Offsets_PlayerAngle2) angle))))"

text \<open>
  \<open>GetPlayerSlot\<close>: the angle is converted to \<open>float\<close>, divided by \<open>360.0f\<close> and
  multiplied by the slot count converted to \<open>float\<close>; each step rounds. The conversion
  back to \<open>DWORD\<close> drops the fraction and is undefined when the value does not fit.
\<close>

definition GetPlayerSlot :: "SuperHexagonApi \<Rightarrow> memory \<Rightarrow> error + DWORD" where
  "GetPlayerSlot api m =
     (case GetPlayerAngle api m of
        Inl e \<Rightarrow> Inl e
      | Inr a \<Rightarrow>
          let angle = float_round (of_int (uint a)) in
          (case GetNumSlots api m of
             Inl e \<Rightarrow> Inl e
           | Inr numSlots \<Rightarrow>
               let product = float_round (float_round (angle / 360) *
                                          float_round (of_int (uint numSlots))) in
               if product < 2 ^ 32 then Inr (of_int \<lfloor>product\<rfloor>)
               else Inl FloatToIntOutOfRange))"

text \<open>
  The slot boundaries of a slot count \<open>n\<close> are the angles below 360 whose product with \<open>n\<close>
  is a multiple of 360: the multiples of \<open>360 div gcd 360 n\<close>. The predicate says that the
  arithmetic of \<open>GetPlayerSlot\<close> yields the exact quotient at each of them.
\<close>

definition slot_boundaries_exact :: "int \<Rightarrow> bool" where
  "slot_boundaries_exact n \<longleftrightarrow>
     list_all (\<lambda>j. \<lfloor>float_round (float_round (of_int (j * (360 div gcd 360 n)) / 360) * of_int n)\<rfloor>
                     = j * (360 div gcd 360 n) * n div 360) [1..gcd 360 n - 1]"

text \<open>\<open>SetPlayerSlot(k)\<close> followed by \<open>GetPlayerSlot()\<close>.\<close>

definition set_then_get :: "SuperHexagonApi \<Rightarrow> memory \<Rightarrow> DWORD \<Rightarrow> error + DWORD" where
  "set_then_get api m k =
     (case SetPlayerSlot api m k of
        Inl e \<Rightarrow> Inl e
      | Inr m' \<Rightarrow> GetPlayerSlot api m')"

text \<open>\<open>SetPlayerSlot(k)\<close> followed by \<open>GetPlayerAngle()\<close>.\<close>

definition set_then_angle :: "SuperHexagonApi \<Rightarrow> memory \<Rightarrow> DWORD \<Rightarrow> error + DWORD" where
  "set_then_angle api m k =
     (case SetPlayerSlot api m k of
        Inl e \<Rightarrow> Inl e
      | Inr m' \<Rightarrow> GetPlayerAngle api m')"

definition StartMovingLeft :: "SuperHexagonApi \<Rightarrow> memory \<Rightarrow> error + memory" where
  "StartMovingLeft api m =
     (case Write_BYTE m (appBase api + Offsets_MouseDownLeft) 1 of
        Inl e \<Rightarrow> Inl e
      | Inr m' \<Rightarrow> Write_BYTE m' (appBase api + Offsets_MouseDown) 1)"

definition StartMovingRight :: "SuperHexagonApi \<Rightarrow> memory \<Rightarrow> error + memory" where
  "StartMovingRight api m =
     (case Write_BYTE m (appBase api + Offsets_MouseDownRight) 1 of
        Inl e \<Rightarrow> Inl e
      | Inr m' \<Rightarrow> Write_BYTE m' (appBase api + Offsets_MouseDown) 1)"

definition ReleaseMouse :: "SuperHexagonApi \<Rightarrow> memory \<Rightarrow> error + memory" where
  "ReleaseMouse api m =
     (case Write_BYTE m (appBase api + Offsets_MouseDownLeft) 0 of
        Inl e \<Rightarrow> Inl e
      | Inr m' \<Rightarrow>
          (case Write_BYTE m' (appBase api + Offsets_MouseDownRight) 0 of
             Inl e \<Rightarrow> Inl e
           | Inr m'' \<Rightarrow> Write_BYTE m'' (appBase api + Offsets_MouseDown) 0))"

definition GetWorldAngle :: "SuperHexagonApi \<Rightarrow> memory \<Rightarrow> error + DWORD" where
  "GetWorldAngle api m = Read_DWORD m (appBase api + Offsets_WorldAngle)"

definition SetWorldAngle :: "SuperHexagonApi \<Rightarrow> memory \<Rightarrow> DWORD \<Rightarrow> error + memory" where
  "SetWorldAngle api m angle = Write_DWORD m (appBase api + Offsets_WorldAngle) angle"

section \<open>One iteration of the loop in \<open>main\<close>\<close>

text \<open>
  What the program does to the outside besides the memory of the game: the status line with
  the chosen slot and the world angle, \<open>Sleep(10)\<close> and \<open>system("cls")\<close>.
\<close>

datatype event = StatusLine DWORD DWORD | Sleep nat | ClearScreen

record world =
  target :: memory
  console :: "event list"

text \<open>
  Lines 239 to 250: with no wall nothing is chosen; otherwise the slot count is read and
  the target slot computed.
\<close>

definition choose_slot :: "SuperHexagonApi \<Rightarrow> memory \<Rightarrow> error + DWORD option" where
  "choose_slot api m =
     (if walls api \<noteq> [] then
        (case GetNumSlots api m of
           Inl e \<Rightarrow> Inl e
         | Inr numSlots \<Rightarrow>
             (case target_slot numSlots (walls api) of
                Inl e \<Rightarrow> Inl e
              | Inr targetSlot \<Rightarrow> Inr (Some targetSlot)))
      else Inr None)"

text \<open>
  Lines 238 to 258. The status line is written once the world angle has been read; then the
  player is moved. \<open>Sleep\<close> and \<open>cls\<close> end every iteration. A run that has ended
  (\<open>Inl\<close>) keeps neither memory nor output.
\<close>

definition loop_body :: "SuperHexagonApi \<Rightarrow> world \<Rightarrow> error + SuperHexagonApi \<times> world" where
  "loop_body api w =
     (case UpdateWalls api (target w) of
        Inl e \<Rightarrow> Inl e
      | Inr api' \<Rightarrow>
          (case choose_slot api' (target w) of
             Inl e \<Rightarrow> Inl e
           | Inr None \<Rightarrow> Inr (api', w\<lparr>console := console w @ [Sleep 10, ClearScreen]\<rparr>)
           | Inr (Some targetSlot) \<Rightarrow>
               (case GetWorldAngle api' (target w) of
                  Inl e \<Rightarrow> Inl e
                | Inr worldAngle \<Rightarrow>
                    (case SetPlayerSlot api' (target w) targetSlot of
                       Inl e \<Rightarrow> Inl e
                     | Inr m' \<Rightarrow>
                         Inr (api', \<lparr>target = m',
                                    console = console w @
                                      [StatusLine targetSlot worldAngle, Sleep 10, ClearScreen]\<rparr>)))))"

section \<open>Sequences of movement calls\<close>

text \<open>
  The three members \<open>StartMovingLeft\<close>, \<open>StartMovingRight\<close> and \<open>ReleaseMouse\<close> are
  what the specification calls \<open>setMovement\<close> with a direction; a caller issues them one
  after the other, and a failed call ends the run.
\<close>

datatype Direction = Left | Right | Released

definition setMovement :: "SuperHexagonApi \<Rightarrow> memory \<Rightarrow> Direction \<Rightarrow> error + memory" where
  "setMovement api m d =
     (case d of Left \<Rightarrow> StartMovingLeft api m
              | Right \<Rightarrow> StartMovingRight api m
              | Released \<Rightarrow> ReleaseMouse api m)"

fun setMovements :: "SuperHexagonApi \<Rightarrow> memory \<Rightarrow> Direction list \<Rightarrow> error + memory" where
  "setMovements api m [] = Inr m"
| "setMovements api m (d # ds) =
     (case setMovement api m d of Inl e \<Rightarrow> Inl e | Inr m' \<Rightarrow> setMovements api m' ds)"

text \<open>The three input-state bytes of the game: left, right and the generic flag.\<close>

definition input_state :: "SuperHexagonApi \<Rightarrow> memory \<Rightarrow> BYTE option \<times> BYTE option \<times> BYTE option" where
  "input_state api m =
     (m (appBase api + Offsets_MouseDownLeft), m (appBase api + Offsets_MouseDownRight),
      m (appBase api + Offsets_MouseDown))"

text \<open>
  A sequence of calls that never asks for a direction while the opposite one is held:
  \<open>held\<close> is the last movement asked for.
\<close>

fun one_at_a_time :: "Direction \<Rightarrow> Direction list \<Rightarrow> bool" where
  "one_at_a_time held [] = True"
| "one_at_a_time held (Released # ds) = one_at_a_time Released ds"
| "one_at_a_time held (Left # ds) = (held \<noteq> Right \<and> one_at_a_time Left ds)"
| "one_at_a_time held (Right # ds) = (held \<noteq> Left \<and> one_at_a_time Right ds)"

definition holds :: "SuperHexagonApi \<Rightarrow> Direction \<Rightarrow> memory \<Rightarrow> bool" where
  "holds api held m =
     (case held of
        Left \<Rightarrow> m (appBase api + Offsets_MouseDownRight) = Some 0
      | Right \<Rightarrow> m (appBase api + Offsets_MouseDownLeft) = Some 0
      | Released \<Rightarrow> m (appBase api + Offsets_MouseDownLeft) = Some 0 \<and>
                    m (appBase api + Offsets_MouseDownRight) = Some 0)"

section \<open>Concrete inputs\<close>

text \<open>
  A game whose memory is accessible everywhere and all zero; the same with six slots for an
  \<open>appBase\<close> of \<open>0x1000\<close>; the same with one wall record, all zero, and no slot.
\<close>

definition zero_memory :: memory where
  "zero_memory = (\<lambda>a. Some 0)"

definition six_slots :: memory where
  "six_slots = zero_memory(0x11BC \<mapsto> 6)"

definition one_wall :: memory where
  "one_wall = zero_memory(0x3930 \<mapsto> 1)"

text \<open>
  A game with 19 slots, and the same with the player at angle 198; a game with 108 slots
  whose player stands at angle 210; a game with 487 slots (\<open>0x1E7\<close>) whose player stands at
  angle 23057 (\<open>0x5A11\<close>); all for an \<open>appBase\<close> of \<open>0x1000\<close>.
\<close>

definition nineteen_slots :: memory where
  "nineteen_slots = zero_memory(0x11BC \<mapsto> 19)"

definition angle_198_of_19 :: memory where
  "angle_198_of_19 = zero_memory(0x11BC \<mapsto> 19, 0x3958 \<mapsto> 198)"

definition angle_210_of_108 :: memory where
  "angle_210_of_108 = zero_memory(0x11BC \<mapsto> 108, 0x3958 \<mapsto> 210)"

definition angle_23057_of_487 :: memory where
  "angle_23057_of_487 =
     zero_memory(0x11BC \<mapsto> 0xE7, 0x11BD \<mapsto> 1, 0x3958 \<mapsto> 0x11, 0x3959 \<mapsto> 0x5A)"

text \<open>A game in which every byte is \<open>0xFF\<close>.\<close>

definition ones_memory :: memory where
  "ones_memory = (\<lambda>a. Some 255)"

text \<open>A game with 6 slots whose player stands at angle 100, and one at angle 60.\<close>

definition angle_100_of_6 :: memory where
  "angle_100_of_6 = zero_memory(0x11BC \<mapsto> 6, 0x3958 \<mapsto> 100)"

definition angle_60_of_6 :: memory where
  "angle_60_of_6 = zero_memory(0x11BC \<mapsto> 6, 0x3958 \<mapsto> 60)"

text \<open>Two walls that do not count: one with distance 0, one disabled.\<close>

definition idle_walls :: "Wall list" where
  "idle_walls =
     [\<lparr>slot = 3, distance = 0, enabled = 1, fill1 = [0, 0, 0], unk2 = 0, unk3 = 0\<rparr>,
      \<lparr>slot = 1, distance = 7, enabled = 0, fill1 = [0, 0, 0], unk2 = 0, unk3 = 0\<rparr>]"

text \<open>
  Two system calls that transfer less than they were asked for: a read that reports
  success with one byte missing, and a write that fails after the first byte.
\<close>

definition short_read :: "DWORD \<Rightarrow> nat \<Rightarrow> BYTE list os_call" where
  "short_read address len = \<lparr>success = True, count = len - 1, outcome = replicate (len - 1) 7\<rparr>"

definition short_write :: "DWORD \<Rightarrow> BYTE list \<Rightarrow> memory os_call" where
  "short_write address data =
     \<lparr>success = False, count = 1, outcome = store zero_memory address (take 1 data)\<rparr>"

section \<open>The slot selection\<close>

lemma max_scan_first_greatest:
  assumes "ys = pre @ xs" "length pre = i" "pos < i" "largest = ys ! pos"
    "\<forall>j<i. ys ! j \<le> largest" "\<forall>j<pos. ys ! j < largest"
  shows "max_scan largest pos i xs < length ys \<and>
         (\<forall>j<length ys. ys ! j \<le> ys ! max_scan largest pos i xs) \<and>
         (\<forall>j<max_scan largest pos i xs. ys ! j < ys ! max_scan largest pos i xs)"
  using assms
proof (induction xs arbitrary: pre largest pos i)
  case Nil
  then show ?case by auto
next
  case (Cons x xs)
  have x: "ys ! i = x" using Cons.prems by (simp add: nth_append)
  have ys: "ys = (pre @ [x]) @ xs" "length (pre @ [x]) = Suc i" using Cons.prems by simp_all
  show ?case
  proof (cases "largest < x")
    case True
    have "\<forall>j<Suc i. ys ! j \<le> x" using Cons.prems(5) True x by (auto simp: less_Suc_eq)
    moreover have "\<forall>j<i. ys ! j < x" using Cons.prems(5) True by auto
    ultimately show ?thesis
      using Cons.IH[OF ys, of i x] True x by simp
  next
    case False
    have "\<forall>j<Suc i. ys ! j \<le> largest" using Cons.prems(5) False x by (auto simp: less_Suc_eq)
    then show ?thesis
      using Cons.IH[OF ys, of pos largest] False Cons.prems by simp
  qed
qed

lemma max_element_first_greatest:
  assumes "xs \<noteq> []"
  shows "max_element xs < length xs \<and>
         (\<forall>j<length xs. xs ! j \<le> xs ! max_element xs) \<and>
         (\<forall>j<max_element xs. xs ! j < xs ! max_element xs)"
proof -
  obtain x rest where xs: "xs = x # rest" using assms by (cases xs) auto
  have "max_scan x 0 1 rest < length xs \<and>
         (\<forall>j<length xs. xs ! j \<le> xs ! max_scan x 0 1 rest) \<and>
         (\<forall>j<max_scan x 0 1 rest. xs ! j < xs ! max_scan x 0 1 rest)"
    by (rule max_scan_first_greatest[where pre = "[x]"]) (simp_all add: xs)
  then show ?thesis by (simp add: max_element_def xs)
qed

lemma lower_min_ok:
  assumes "numSlots \<noteq> 0" "length mins = unat numSlots"
  shows "\<exists>r. lower_min numSlots mins a = Inr r \<and> length r = unat numSlots \<and>
    (\<forall>s<unat numSlots. r ! s =
       (if live a \<and> unat (slot a mod numSlots) = s then min (mins ! s) (distance a) else mins ! s))"
proof -
  have "unat (slot a mod numSlots) < unat numSlots"
    using assms(1) by (simp add: unat_mod unat_gt_0)
  then show ?thesis using assms by (auto simp: lower_min_def live_def)
qed

lemma for_each_wall_ok:
  assumes "numSlots \<noteq> 0" "length mins = unat numSlots"
  shows "\<exists>r. for_each_wall numSlots mins ws = Inr r \<and> length r = unat numSlots \<and>
    (\<forall>s<unat numSlots. r ! s =
       Min (set (mins ! s # map distance (filter (\<lambda>a. live a \<and> unat (slot a mod numSlots) = s) ws))))"
  using assms
proof (induction ws arbitrary: mins)
  case Nil
  then show ?case by simp
next
  case (Cons a ws)
  obtain r where r: "lower_min numSlots mins a = Inr r" "length r = unat numSlots"
    "\<forall>s<unat numSlots. r ! s =
       (if live a \<and> unat (slot a mod numSlots) = s then min (mins ! s) (distance a) else mins ! s)"
    using lower_min_ok[OF Cons.prems] by blast
  obtain r' where r': "for_each_wall numSlots r ws = Inr r'" "length r' = unat numSlots"
    "\<forall>s<unat numSlots. r' ! s =
       Min (set (r ! s # map distance (filter (\<lambda>a. live a \<and> unat (slot a mod numSlots) = s) ws)))"
    using Cons.IH[OF Cons.prems(1) r(2)] by blast
  have "\<forall>s<unat numSlots. r' ! s =
       Min (set (mins ! s # map distance (filter (\<lambda>a. live a \<and> unat (slot a mod numSlots) = s) (a # ws))))"
  proof (intro allI impI)
    fix s assume s: "s < unat numSlots"
    let ?S = "set (map distance (filter (\<lambda>a. live a \<and> unat (slot a mod numSlots) = s) ws))"
    have fin: "finite ?S" by simp
    show "r' ! s = Min (set (mins ! s # map distance (filter (\<lambda>a. live a \<and> unat (slot a mod numSlots) = s) (a # ws))))"
    proof (cases "live a \<and> unat (slot a mod numSlots) = s")
      case True
      have "r' ! s = Min (insert (min (mins ! s) (distance a)) ?S)" using r' r(3) s True by simp
      also have "\<dots> = Min (insert (mins ! s) (insert (distance a) ?S))"
        using fin by (cases "?S = {}") (simp_all add: min.assoc)
      finally show ?thesis using True by (simp add: insert_commute)
    next
      case False
      then show ?thesis using r' r(3) s by auto
    qed
  qed
  then show ?case using r r' by simp
qed

lemma min_distances_nearest:
  assumes "numSlots \<noteq> 0"
  shows "min_distances numSlots ws = Inr (map (nearest numSlots ws) [0..<unat numSlots])"
proof -
  obtain r where r: "for_each_wall numSlots (replicate (unat numSlots) (- 1)) ws = Inr r"
    "length r = unat numSlots"
    "\<forall>s<unat numSlots. r ! s =
       Min (set (replicate (unat numSlots) (- 1) ! s # map distance (filter (\<lambda>a. live a \<and> unat (slot a mod numSlots) = s) ws)))"
    using for_each_wall_ok[OF assms, of "replicate (unat numSlots) (- 1)" ws] by auto
  have "r = map (nearest numSlots ws) [0..<unat numSlots]"
    by (rule nth_equalityI) (use r in \<open>simp_all add: nearest_def\<close>)
  then show ?thesis using r(1) by (simp add: min_distances_def)
qed

lemma target_slot_ok:
  assumes "numSlots \<noteq> 0"
  shows "\<exists>t. target_slot numSlots ws = Inr t \<and> unat t < unat numSlots \<and>
       (\<forall>s<unat numSlots. nearest numSlots ws s \<le> nearest numSlots ws (unat t)) \<and>
       (\<forall>s<unat t. nearest numSlots ws s < nearest numSlots ws (unat t))"
proof -
  let ?xs = "map (nearest numSlots ws) [0..<unat numSlots]"
  let ?p = "max_element ?xs"
  have ne: "?xs \<noteq> []" using assms by (simp add: unat_gt_0)
  note mx = max_element_first_greatest[OF ne]
  have p: "?p < unat numSlots" using mx by simp
  have "unat numSlots < 2 ^ 32" using unsigned_less[of numSlots, where 'a = nat] by simp
  then have up: "unat (of_nat ?p :: DWORD) = ?p" using p by (simp add: unat_of_nat)
  have t: "target_slot numSlots ws = Inr (of_nat ?p)"
    by (simp add: target_slot_def min_distances_nearest[OF assms])
  have a: "\<forall>s<unat numSlots. nearest numSlots ws s \<le> nearest numSlots ws ?p"
    using mx p by auto
  have b: "\<forall>s<?p. nearest numSlots ws s < nearest numSlots ws ?p"
    using mx p by auto
  show ?thesis using t p a b up by simp
qed

text \<open>
  Claim C1. For a slot count of at least 1 and a non-empty list of walls, the pass over the
  walls yields, slot by slot, the least distance among the enabled walls of positive
  distance whose slot index modulo the slot count is that slot (the greatest \<open>DWORD\<close> for a
  slot without such a wall, written \<open>- 1\<close>), and the chosen slot is the first slot whose
  minimum is greatest. In the scenario the minima are 50, MAX, 10, MAX, MAX, MAX and slot 1
  is chosen.
\<close>

theorem target_slot_first_greatest_minimum:
  "numSlots \<noteq> 0 \<Longrightarrow> ws \<noteq> [] \<Longrightarrow>
   (\<exists>t. target_slot numSlots ws = Inr t \<and> unat t < unat numSlots \<and>
       min_distances numSlots ws = Inr (map (nearest numSlots ws) [0..<unat numSlots]) \<and>
       (\<forall>s<unat numSlots. nearest numSlots ws s \<le> nearest numSlots ws (unat t)) \<and>
       (\<forall>s<unat t. nearest numSlots ws s < nearest numSlots ws (unat t))) \<and>
   (\<forall>d :: DWORD. d \<le> - 1) \<and>
   min_distances 6 scenario = Inr [50, - 1, 10, - 1, - 1, - 1] \<and>
   target_slot 6 scenario = Inr 1"
proof -
  assume n: "numSlots \<noteq> 0"
  have s: "min_distances 6 scenario = Inr [50, - 1, 10, - 1, - 1, - 1]"
    by code_simp
  have "target_slot 6 scenario = Inr 1"
    by code_simp
  then show ?thesis
    using s target_slot_ok[OF n, of ws] min_distances_nearest[OF n, of ws] by simp
qed

theorem target_slot_first_greatest_minimum_witness:
  "(6 :: DWORD) \<noteq> 0 \<and> scenario \<noteq> [] \<and>
   (\<exists>t. target_slot 6 scenario = Inr t \<and> unat t < unat (6 :: DWORD) \<and>
       min_distances 6 scenario = Inr (map (nearest 6 scenario) [0..<unat (6 :: DWORD)]) \<and>
       (\<forall>s<unat (6 :: DWORD). nearest 6 scenario s \<le> nearest 6 scenario (unat t)) \<and>
       (\<forall>s<unat t. nearest 6 scenario s < nearest 6 scenario (unat t)))"
proof -
  have h1: "(6 :: DWORD) \<noteq> 0" by simp
  have h2: "scenario \<noteq> []" by (simp add: scenario_def)
  show ?thesis using target_slot_first_greatest_minimum[OF h1 h2] h1 h2 by blast
qed

section \<open>Reading and writing the memory of the game\<close>

lemma unat_byte: "unat (ucast (ucast (x::DWORD) :: BYTE) :: DWORD) = unat x mod 256"
  by (simp add: unsigned_ucast_eq take_bit_eq_mod unsigned_take_bit_eq unat_mod)

lemma base256_digits:
  fixes n :: nat
  assumes "n < 2 ^ 32"
  shows "n mod 256 + 256 * (n div 256 mod 256 + 256 * (n div 65536 mod 256 + 256 * (n div 16777216 mod 256))) = n"
proof -
  define b where "b = n div 256"
  define c where "c = b div 256"
  define d where "d = c div 256"
  have c: "n div 65536 = c" unfolding c_def b_def by (simp add: div_mult2_eq)
  have d: "n div 16777216 = d" unfolding d_def c_def b_def by (simp add: div_mult2_eq)
  have "d < 256" using assms unfolding d[symmetric] by simp
  then have "d mod 256 = d" by simp
  moreover have "c mod 256 + 256 * d = c" unfolding d_def by simp
  moreover have "b mod 256 + 256 * c = b" unfolding c_def by simp
  moreover have "n mod 256 + 256 * b = n" unfolding b_def by simp
  ultimately show ?thesis unfolding c d b_def[symmetric] by simp
qed

lemma byte_digit:
  "(ucast (ucast (x::DWORD) :: BYTE) :: DWORD) = of_nat (unat x mod 256)"
  by (rule word_unat_eq_iff[THEN iffD2]) (simp add: unat_byte unat_of_nat)

lemma DWORD_of_bytes_of_DWORD: "DWORD_of_bytes (bytes_of_DWORD w) = w"
proof -
  have a: "unat w < 2 ^ 32" using unsigned_less[of w, where 'a=nat] by simp
  have "DWORD_of_bytes (bytes_of_DWORD w) =
     of_nat (unat w mod 256 + 256 * (unat w div 256 mod 256 + 256 * (unat w div 65536 mod 256 + 256 * (unat w div 16777216 mod 256))))"
    unfolding DWORD_of_bytes_def bytes_of_DWORD_def
    by (simp add: byte_digit unat_drop_bit_eq drop_bit_eq_div unat_div)
  also have "\<dots> = of_nat (unat w)" by (rule arg_cong[where f = of_nat, OF base256_digits[OF a]])
  finally show ?thesis by simp
qed

lemma load_4: "load m a 4 = [m a, m (a + 1), m (a + 2), m (a + 3)]"
proof -
  have "load m a (Suc (Suc (Suc (Suc 0)))) = [m a, m (a + 1), m (a + 2), m (a + 3)]"
    by (simp add: add.assoc)
  then show ?thesis by (simp add: eval_nat_numeral)
qed

lemma load_1: "load m a 1 = [m a]"
  by simp

lemma accessible_4:
  "accessible m a 4 \<longleftrightarrow> m a \<noteq> None \<and> m (a + 1) \<noteq> None \<and> m (a + 2) \<noteq> None \<and> m (a + 3) \<noteq> None"
  by (simp add: accessible_def load_4)

lemma accessible_1: "accessible m a (Suc 0) \<longleftrightarrow> m a \<noteq> None"
  by (simp add: accessible_def)

lemma Read_DWORD_eq:
  "Read_DWORD m a =
     (if accessible m a 4 then Inr (DWORD_of_bytes (map the (load m a 4))) else Inl AssertionFailed)"
  by (simp add: Read_DWORD_def Memory_Read_def assert_complete_def ReadProcessMemory_def)

lemma Write_DWORD_eq:
  "Write_DWORD m a v =
     (if accessible m a 4 then Inr (store m a (bytes_of_DWORD v)) else Inl AssertionFailed)"
proof -
  have "length (bytes_of_DWORD v) = 4" by (simp add: bytes_of_DWORD_def)
  then show ?thesis
    by (simp add: Write_DWORD_def Memory_Write_def assert_complete_def WriteProcessMemory_def)
qed

lemma Write_BYTE_eq:
  "Write_BYTE m a v = (if m a \<noteq> None then Inr (m(a \<mapsto> v)) else Inl AssertionFailed)"
  by (simp add: Write_BYTE_def Memory_Write_def assert_complete_def WriteProcessMemory_def
      accessible_1)

lemma store_DWORD:
  "store m a (bytes_of_DWORD v) =
     m(a \<mapsto> ucast v, a + 1 \<mapsto> ucast (drop_bit 8 v), a + 2 \<mapsto> ucast (drop_bit 16 v),
       a + 3 \<mapsto> ucast (drop_bit 24 v))"
  by (simp add: bytes_of_DWORD_def add.assoc)

lemma load_store_same:
  "map the (load (store m a (bytes_of_DWORD v)) a 4) = bytes_of_DWORD v"
  by (simp add: store_DWORD load_4) (simp add: bytes_of_DWORD_def)

lemma Read_after_Write:
  assumes "Write_DWORD m a v = Inr m'"
  shows "Read_DWORD m' a = Inr v"
proof -
  have acc: "accessible m a 4" and m': "m' = store m a (bytes_of_DWORD v)"
    using assms by (auto simp: Write_DWORD_eq split: if_splits)
  have "accessible m' a 4" using acc by (simp add: m' store_DWORD accessible_4)
  then show ?thesis
    by (simp add: Read_DWORD_eq m' load_store_same DWORD_of_bytes_of_DWORD)
qed

lemma Write_DWORD_frame:
  assumes "Write_DWORD m b v = Inr m'" "x \<noteq> b" "x \<noteq> b + 1" "x \<noteq> b + 2" "x \<noteq> b + 3"
  shows "m' x = m x"
  using assms by (auto simp: Write_DWORD_eq store_DWORD split: if_splits)

lemma Write_DWORD_pages:
  assumes "Write_DWORD m b v = Inr m'"
  shows "m' x = None \<longleftrightarrow> m x = None"
  using assms by (auto simp: Write_DWORD_eq store_DWORD accessible_4 split: if_splits)

lemma Write_DWORD_accessible:
  assumes "Write_DWORD m b v = Inr m'"
  shows "accessible m' a 4 = accessible m a 4"
  by (simp add: accessible_4 Write_DWORD_pages[OF assms])

lemma Read_DWORD_cong:
  assumes "m' a = m a" "m' (a + 1) = m (a + 1)" "m' (a + 2) = m (a + 2)" "m' (a + 3) = m (a + 3)"
  shows "Read_DWORD m' a = Read_DWORD m a"
  using assms by (simp add: Read_DWORD_eq accessible_4 load_4)

lemma GetNumSlots_six: "GetNumSlots \<lparr>appBase = 0x1000, walls = ws\<rparr> six_slots = Inr 6"
  by (simp add: GetNumSlots_def Read_DWORD_eq accessible_4 load_4 six_slots_def
        zero_memory_def DWORD_of_bytes_def)

section \<open>The decision of one iteration\<close>

text \<open>
  Claim C2. With no wall the loop chooses nothing. With at least one wall and a slot count
  of at least 1 read from the game, it chooses a slot index below the slot count.
\<close>

theorem choose_slot_in_range:
  "(walls api = [] \<longrightarrow> choose_slot api m = Inr None) \<and>
   (walls api \<noteq> [] \<and> GetNumSlots api m = Inr numSlots \<and> numSlots \<noteq> 0 \<longrightarrow>
      (\<exists>t. choose_slot api m = Inr (Some t) \<and> t < numSlots))"
proof -
  have "\<exists>t. choose_slot api m = Inr (Some t) \<and> t < numSlots"
    if w: "walls api \<noteq> []" and g: "GetNumSlots api m = Inr numSlots" and n: "numSlots \<noteq> 0"
  proof -
    obtain t where "target_slot numSlots (walls api) = Inr t" "unat t < unat numSlots"
      using target_slot_ok[OF n] by blast
    then show ?thesis using w g by (simp add: choose_slot_def word_less_nat_alt)
  qed
  then show ?thesis by (auto simp: choose_slot_def)
qed

theorem choose_slot_in_range_witness:
  "choose_slot \<lparr>appBase = 0x1000, walls = []\<rparr> six_slots = Inr None \<and>
   (\<exists>t. choose_slot \<lparr>appBase = 0x1000, walls = scenario\<rparr> six_slots = Inr (Some t) \<and> t < 6)"
proof -
  let ?none = "\<lparr>appBase = 0x1000, walls = []\<rparr>"
  let ?some = "\<lparr>appBase = 0x1000, walls = scenario\<rparr>"
  have a: "walls ?none = []" by simp
  have b: "walls ?some \<noteq> []" by (simp add: scenario_def)
  have c: "GetNumSlots ?some six_slots = Inr 6" by (rule GetNumSlots_six)
  have d: "(6 :: DWORD) \<noteq> 0" by simp
  show ?thesis
    using choose_slot_in_range[of ?none six_slots 6]
      choose_slot_in_range[of ?some six_slots 6] a b c d by blast
qed

lemma nearest_no_live:
  assumes "\<forall>a\<in>set ws. enabled a = 0 \<or> distance a = 0"
  shows "nearest numSlots ws s = - 1"
proof -
  have "filter (\<lambda>a. live a \<and> unat (slot a mod numSlots) = s) ws = []"
    using assms by (auto simp: filter_empty_conv live_def)
  then show ?thesis by (simp add: nearest_def)
qed

text \<open>
  Claim C3. With at least one wall, a slot count of at least 1, and every wall disabled or
  at distance 0, the loop chooses slot 0; it does not skip the choice.
\<close>

theorem choose_slot_no_live_wall:
  assumes "walls api \<noteq> []" "GetNumSlots api m = Inr numSlots" "numSlots \<noteq> 0"
    "\<forall>a\<in>set (walls api). enabled a = 0 \<or> distance a = 0"
  shows "choose_slot api m = Inr (Some 0)"
proof -
  obtain t where t: "target_slot numSlots (walls api) = Inr t"
    "\<forall>s<unat t. nearest numSlots (walls api) s < nearest numSlots (walls api) (unat t)"
    using target_slot_ok[OF assms(3)] by blast
  have "unat t = 0"
  proof (rule ccontr)
    assume "unat t \<noteq> 0"
    then have "nearest numSlots (walls api) 0 < nearest numSlots (walls api) (unat t)"
      using t(2) by simp
    then show False by (simp add: nearest_no_live[OF assms(4)])
  qed
  then have "t = 0" by (simp add: unat_eq_0)
  then show ?thesis using t(1) assms by (simp add: choose_slot_def)
qed

theorem choose_slot_no_live_wall_witness:
  "choose_slot \<lparr>appBase = 0x1000, walls = idle_walls\<rparr> six_slots = Inr (Some 0)"
proof -
  have a: "walls \<lparr>appBase = 0x1000, walls = idle_walls\<rparr> \<noteq> []" by (simp add: idle_walls_def)
  have b: "(6 :: DWORD) \<noteq> 0" by simp
  have c: "\<forall>a\<in>set (walls \<lparr>appBase = 0x1000, walls = idle_walls\<rparr>). enabled a = 0 \<or> distance a = 0"
    by (simp add: idle_walls_def)
  show ?thesis by (rule choose_slot_no_live_wall[OF a GetNumSlots_six b c])
qed

section \<open>\<open>SetPlayerSlot\<close>\<close>

lemma angle_no_overflow:
  fixes numSlots slot' :: DWORD
  assumes "numSlots \<noteq> 0"
  shows "unat (360 div numSlots * (slot' mod numSlots) + 180 div numSlots) =
         360 div unat numSlots * (unat slot' mod unat numSlots) + 180 div unat numSlots"
proof -
  let ?n = "unat numSlots"
  have n: "0 < ?n" using assms by (simp add: unat_gt_0)
  have "unat slot' mod ?n < ?n" using n by simp
  then have "360 div ?n * (unat slot' mod ?n) \<le> 360 div ?n * ?n" by (simp add: less_imp_le)
  also have "\<dots> \<le> 360" by simp
  finally have p: "360 div ?n * (unat slot' mod ?n) \<le> 360" .
  have q: "180 div ?n \<le> 180" by (rule div_le_dividend)
  have m: "unat (360 div numSlots * (slot' mod numSlots)) = 360 div ?n * (unat slot' mod ?n)"
    using p by (simp add: unat_mult_lem[THEN iffD1] unat_div unat_mod)
  have d: "unat (180 div numSlots) = 180 div ?n" by (simp add: unat_div)
  have "unat (360 div numSlots * (slot' mod numSlots)) + unat (180 div numSlots) < 2 ^ LENGTH(32)"
    using add_mono[OF p q] by (simp add: m d)
  then have "unat (360 div numSlots * (slot' mod numSlots) + 180 div numSlots) =
      unat (360 div numSlots * (slot' mod numSlots)) + unat (180 div numSlots)"
    by (rule unat_add_lem[THEN iffD1])
  then show ?thesis by (simp add: m d)
qed

lemma SetPlayerSlot_result:
  assumes "GetNumSlots api m = Inr numSlots" "numSlots \<noteq> 0"
    "angle = 360 div numSlots * (slot' mod numSlots) + 180 div numSlots"
  shows "unat angle = 360 div unat numSlots * (unat slot' mod unat numSlots) + 180 div unat numSlots \<and>
    (if accessible m (appBase api + Offsets_PlayerAngle) 4 \<and>
        accessible m (appBase api + Offsets_PlayerAngle2) 4
     then \<exists>m'. SetPlayerSlot api m slot' = Inr m' \<and>
            Read_DWORD m' (appBase api + Offsets_PlayerAngle) = Inr angle \<and>
            Read_DWORD m' (appBase api + Offsets_PlayerAngle2) = Inr angle \<and>
            (\<forall>x. (\<forall>i<8. x \<noteq> appBase api + Offsets_PlayerAngle2 + of_nat i) \<longrightarrow> m' x = m x)
     else SetPlayerSlot api m slot' = Inl AssertionFailed)"
proof -
  let ?pa = "appBase api + Offsets_PlayerAngle"
  let ?pa2 = "appBase api + Offsets_PlayerAngle2"
  have u: "unat angle = 360 div unat numSlots * (unat slot' mod unat numSlots) + 180 div unat numSlots"
    unfolding assms(3) by (rule angle_no_overflow[OF assms(2)])
  have S: "SetPlayerSlot api m slot' =
      (case Write_DWORD m ?pa angle of Inl e \<Rightarrow> Inl e | Inr m' \<Rightarrow> Write_DWORD m' ?pa2 angle)"
    unfolding assms(3) using assms(1,2) by (simp add: SetPlayerSlot_def Let_def)
  show ?thesis
  proof (cases "accessible m ?pa 4 \<and> accessible m ?pa2 4")
    case True
    obtain m1 where m1: "Write_DWORD m ?pa angle = Inr m1"
      using True by (simp add: Write_DWORD_eq)
    have "accessible m1 ?pa2 4" using True by (simp add: Write_DWORD_accessible[OF m1])
    then obtain m2 where m2: "Write_DWORD m1 ?pa2 angle = Inr m2"
      by (simp add: Write_DWORD_eq)
    have r2: "Read_DWORD m2 ?pa2 = Inr angle" by (rule Read_after_Write[OF m2])
    have "Read_DWORD m2 ?pa = Read_DWORD m1 ?pa"
      by (rule Read_DWORD_cong) (rule Write_DWORD_frame[OF m2]; simp)+
    then have r1: "Read_DWORD m2 ?pa = Inr angle" by (simp add: Read_after_Write[OF m1])
    have fr: "m2 x = m x" if x: "\<forall>i<8. x \<noteq> ?pa2 + of_nat i" for x
    proof -
      have i: "i < 8 \<Longrightarrow> x \<noteq> ?pa2 + of_nat i" for i :: nat using x by blast
      from i[of 0] i[of 1] i[of 2] i[of 3] i[of 4] i[of 5] i[of 6] i[of 7]
      have d: "x \<noteq> ?pa2" "x \<noteq> ?pa2 + 1" "x \<noteq> ?pa2 + 2" "x \<noteq> ?pa2 + 3"
        "x \<noteq> ?pa" "x \<noteq> ?pa + 1" "x \<noteq> ?pa + 2" "x \<noteq> ?pa + 3"
        by (simp_all add: add.assoc)
      have "m2 x = m1 x" by (rule Write_DWORD_frame[OF m2 d(1-4)])
      also have "\<dots> = m x" by (rule Write_DWORD_frame[OF m1 d(5-8)])
      finally show ?thesis .
    qed
    show ?thesis using True u S m1 m2 r1 r2 fr by simp
  next
    case False
    have "SetPlayerSlot api m slot' = Inl AssertionFailed"
    proof (cases "accessible m ?pa 4")
      case True
      then obtain m1 where m1: "Write_DWORD m ?pa angle = Inr m1" by (simp add: Write_DWORD_eq)
      have "\<not> accessible m1 ?pa2 4" using True False by (simp add: Write_DWORD_accessible[OF m1])
      then show ?thesis unfolding S m1 by (simp add: Write_DWORD_eq)
    next
      case False
      then show ?thesis by (simp add: S Write_DWORD_eq)
    qed
    then show ?thesis using False u by simp
  qed
qed

text \<open>
  Claim C4. For a slot count of at least 1 and any slot, the angle that \<open>SetPlayerSlot\<close>
  computes is \<open>360 div numSlots * (slot mod numSlots) + 180 div numSlots\<close>, without
  wrap-around; when both angle fields of the game are accessible the call succeeds, both
  fields then hold exactly this angle and no other byte of the game has changed; when one of
  them is not accessible the run ends at the failed assertion.
\<close>

theorem SetPlayerSlot_writes_angle:
  assumes "GetNumSlots api m = Inr numSlots" "numSlots \<noteq> 0"
    "angle = 360 div numSlots * (slot' mod numSlots) + 180 div numSlots"
  shows "unat angle = 360 div unat numSlots * (unat slot' mod unat numSlots) + 180 div unat numSlots \<and>
    (if accessible m (appBase api + Offsets_PlayerAngle) 4 \<and>
        accessible m (appBase api + Offsets_PlayerAngle2) 4
     then \<exists>m'. SetPlayerSlot api m slot' = Inr m' \<and>
            Read_DWORD m' (appBase api + Offsets_PlayerAngle) = Inr angle \<and>
            Read_DWORD m' (appBase api + Offsets_PlayerAngle2) = Inr angle \<and>
            (\<forall>x. (\<forall>i<8. x \<noteq> appBase api + Offsets_PlayerAngle2 + of_nat i) \<longrightarrow> m' x = m x)
     else SetPlayerSlot api m slot' = Inl AssertionFailed)"
  using assms by (rule SetPlayerSlot_result)

theorem SetPlayerSlot_writes_angle_witness:
  "\<exists>m'. SetPlayerSlot \<lparr>appBase = 0x1000, walls = []\<rparr> six_slots 8 = Inr m' \<and>
     Read_DWORD m' (0x1000 + Offsets_PlayerAngle) = Inr 150 \<and>
     Read_DWORD m' (0x1000 + Offsets_PlayerAngle2) = Inr 150"
proof -
  have a: "(6 :: DWORD) \<noteq> 0" by simp
  have b: "(150 :: DWORD) = 360 div 6 * (8 mod 6) + 180 div 6" by simp
  have c: "accessible six_slots (0x1000 + Offsets_PlayerAngle) 4 \<and>
      accessible six_slots (0x1000 + Offsets_PlayerAngle2) 4"
    by (simp add: accessible_4 six_slots_def zero_memory_def)
  show ?thesis using SetPlayerSlot_writes_angle[OF GetNumSlots_six a b, of "[]"] c by auto
qed

section \<open>Complete transfers\<close>

text \<open>
  Claim C7. Whatever the system call does, \<open>Read\<close>, \<open>ReadBytes\<close> and \<open>Write\<close> hand
  a result to their caller only when the call succeeded and transferred exactly the number
  of bytes asked for; in every other case the run ends at the assertion. (The assertions
  are taken to be compiled in.)
\<close>

theorem Memory_complete_or_failed:
  "(\<forall>v. Memory_Read sizeof_T of_bytes rpm address = Inr v \<longrightarrow>
        success (rpm address sizeof_T) \<and> count (rpm address sizeof_T) = sizeof_T \<and>
        v = of_bytes (outcome (rpm address sizeof_T))) \<and>
   (\<not> (success (rpm address sizeof_T) \<and> count (rpm address sizeof_T) = sizeof_T) \<longrightarrow>
        Memory_Read sizeof_T of_bytes rpm address = Inl AssertionFailed) \<and>
   (\<forall>bs. Memory_ReadBytes rpm address len = Inr bs \<longrightarrow>
        success (rpm address len) \<and> count (rpm address len) = len \<and>
        bs = outcome (rpm address len)) \<and>
   (\<not> (success (rpm address len) \<and> count (rpm address len) = len) \<longrightarrow>
        Memory_ReadBytes rpm address len = Inl AssertionFailed) \<and>
   (\<forall>m'. Memory_Write wpm address data = Inr m' \<longrightarrow>
        success (wpm address data) \<and> count (wpm address data) = length data \<and>
        m' = outcome (wpm address data)) \<and>
   (\<not> (success (wpm address data) \<and> count (wpm address data) = length data) \<longrightarrow>
        Memory_Write wpm address data = Inl AssertionFailed)"
  by (auto simp: Memory_Read_def Memory_ReadBytes_def Memory_Write_def assert_complete_def
      split: if_splits)

theorem Memory_complete_or_failed_witness:
  "Memory_Read 4 DWORD_of_bytes short_read 0x694B00 = Inl AssertionFailed \<and>
   Memory_ReadBytes short_read 0x1220 40 = Inl AssertionFailed \<and>
   Memory_Write short_write 0x3958 (bytes_of_DWORD 150) = Inl AssertionFailed \<and>
   Memory_Read 4 DWORD_of_bytes (ReadProcessMemory six_slots) 0x11BC = Inr 6"
proof -
  have a: "\<not> (success (short_read 0x694B00 4) \<and> count (short_read 0x694B00 4) = 4)"
    by (simp add: short_read_def)
  have b: "\<not> (success (short_read 0x1220 40) \<and> count (short_read 0x1220 40) = 40)"
    by (simp add: short_read_def)
  have c: "\<not> (success (short_write 0x3958 (bytes_of_DWORD 150)) \<and>
       count (short_write 0x3958 (bytes_of_DWORD 150)) = length (bytes_of_DWORD 150))"
    by (simp add: short_write_def)
  have d: "Memory_Read 4 DWORD_of_bytes (ReadProcessMemory six_slots) 0x11BC = Inr 6"
    using GetNumSlots_six[of "[]"] by (simp add: GetNumSlots_def Read_DWORD_def)
  show ?thesis
    using Memory_complete_or_failed[of 4 DWORD_of_bytes short_read "0x694B00" 40 short_write
            "bytes_of_DWORD 150"]
          Memory_complete_or_failed[of 4 DWORD_of_bytes short_read "0x1220" 40 short_write
            "bytes_of_DWORD 150"]
          Memory_complete_or_failed[of 4 DWORD_of_bytes short_read "0x3958" 40 short_write
            "bytes_of_DWORD 150"]
          a b c d by blast
qed

section \<open>An iteration without walls\<close>

text \<open>
  Claim C8. In an iteration whose fresh list of walls is empty, the memory of the game is
  left as it was (so the player angle fields, the input-state bytes and the world angle are
  unchanged) and no status line is written: the iteration only sleeps and clears the screen.
\<close>

theorem loop_body_no_walls:
  assumes "UpdateWalls api (target w) = Inr api'" "walls api' = []"
  shows "\<exists>w'. loop_body api w = Inr (api', w') \<and> target w' = target w \<and>
            console w' = console w @ [Sleep 10, ClearScreen]"
  using assms by (simp add: loop_body_def choose_slot_def)

lemma UpdateWalls_none:
  "UpdateWalls \<lparr>appBase = 0x1000, walls = scenario\<rparr> zero_memory = Inr \<lparr>appBase = 0x1000, walls = []\<rparr>"
  by (simp add: UpdateWalls_def GetNumWalls_def Read_DWORD_eq accessible_4 load_4 zero_memory_def
      DWORD_of_bytes_def ReadBytes_def Memory_ReadBytes_def assert_complete_def ReadProcessMemory_def
      accessible_def)

theorem loop_body_no_walls_witness:
  "\<exists>w'. loop_body \<lparr>appBase = 0x1000, walls = scenario\<rparr> \<lparr>target = zero_memory, console = []\<rparr> =
           Inr (\<lparr>appBase = 0x1000, walls = []\<rparr>, w') \<and>
         target w' = zero_memory \<and> console w' = [Sleep 10, ClearScreen]"
  using loop_body_no_walls[of "\<lparr>appBase = 0x1000, walls = scenario\<rparr>" "\<lparr>target = zero_memory, console = []\<rparr>"
           "\<lparr>appBase = 0x1000, walls = []\<rparr>"] UpdateWalls_none
  by simp

section \<open>Movement calls\<close>

text \<open>
  Claim C9, as stated, fails: \<open>StartMovingLeft\<close> followed by \<open>StartMovingRight\<close> on a
  game with all input bytes clear leaves both directions asserted, since neither call clears
  the opposite byte.
\<close>

theorem setMovement_both_directions_counterexample:
  "map_sum id (input_state \<lparr>appBase = 0x1000, walls = []\<rparr>)
     (setMovements \<lparr>appBase = 0x1000, walls = []\<rparr> zero_memory [Left, Right]) =
   Inr (Some 1, Some 1, Some 1)"
  by (simp add: setMovement_def StartMovingLeft_def StartMovingRight_def Write_BYTE_eq
      zero_memory_def input_state_def)

lemma StartMovingLeft_state:
  assumes "StartMovingLeft api m = Inr m'"
  shows "input_state api m' = (Some 1, m (appBase api + Offsets_MouseDownRight), Some 1)"
  using assms
  by (auto simp: StartMovingLeft_def Write_BYTE_eq input_state_def split: if_splits)

lemma StartMovingRight_state:
  assumes "StartMovingRight api m = Inr m'"
  shows "input_state api m' = (m (appBase api + Offsets_MouseDownLeft), Some 1, Some 1)"
  using assms
  by (auto simp: StartMovingRight_def Write_BYTE_eq input_state_def split: if_splits)

lemma ReleaseMouse_state:
  assumes "ReleaseMouse api m = Inr m'"
  shows "input_state api m' = (Some 0, Some 0, Some 0)"
  using assms
  by (auto simp: ReleaseMouse_def Write_BYTE_eq input_state_def split: if_splits)

lemma setMovements_one_at_a_time:
  assumes "setMovements api m ds = Inr m'" "one_at_a_time held ds" "holds api held m"
  shows "m' (appBase api + Offsets_MouseDownLeft) = Some 0 \<or>
         m' (appBase api + Offsets_MouseDownRight) = Some 0"
  using assms
proof (induction ds arbitrary: m held)
  case Nil
  then show ?case by (auto simp: holds_def split: Direction.splits)
next
  case (Cons d ds)
  obtain m1 where m1: "setMovement api m d = Inr m1" "setMovements api m1 ds = Inr m'"
    using Cons.prems(1) by (auto split: sum.splits)
  show ?case
  proof (cases d)
    case Left
    have "holds api Left m1"
      using StartMovingLeft_state[of api m m1] m1(1) Cons.prems(2,3) Left
      by (cases held) (auto simp: setMovement_def input_state_def holds_def)
    then show ?thesis using Cons.IH[OF m1(2), of Left] Cons.prems(2) Left by simp
  next
    case Right
    have "holds api Right m1"
      using StartMovingRight_state[of api m m1] m1(1) Cons.prems(2,3) Right
      by (cases held) (auto simp: setMovement_def input_state_def holds_def)
    then show ?thesis using Cons.IH[OF m1(2), of Right] Cons.prems(2) Right by simp
  next
    case Released
    have "holds api Released m1"
      using ReleaseMouse_state[of api m m1] m1(1) Released
      by (auto simp: setMovement_def input_state_def holds_def)
    then show ?thesis using Cons.IH[OF m1(2), of Released] Cons.prems(2) Released by simp
  qed
qed

text \<open>
  Claim C9, amended. \<open>ReleaseMouse\<close> clears the three input-state bytes. Asserting a
  direction sets its byte and the generic flag to 1 and leaves the byte of the opposite
  direction as it was. Hence, from a state with both direction bytes clear, after any
  sequence of calls that never asks for a direction while the opposite one is held, at most
  one direction is asserted.
\<close>

theorem setMovement_one_direction:
  "(\<forall>m'. ReleaseMouse api m = Inr m' \<longrightarrow> input_state api m' = (Some 0, Some 0, Some 0)) \<and>
   (\<forall>m'. StartMovingLeft api m = Inr m' \<longrightarrow>
      input_state api m' = (Some 1, m (appBase api + Offsets_MouseDownRight), Some 1)) \<and>
   (\<forall>m'. StartMovingRight api m = Inr m' \<longrightarrow>
      input_state api m' = (m (appBase api + Offsets_MouseDownLeft), Some 1, Some 1)) \<and>
   (\<forall>m'. m (appBase api + Offsets_MouseDownLeft) = Some 0 \<and>
         m (appBase api + Offsets_MouseDownRight) = Some 0 \<and>
         one_at_a_time Released ds \<and> setMovements api m ds = Inr m' \<longrightarrow>
         m' (appBase api + Offsets_MouseDownLeft) = Some 0 \<or>
         m' (appBase api + Offsets_MouseDownRight) = Some 0)"
  using ReleaseMouse_state StartMovingLeft_state StartMovingRight_state
    setMovements_one_at_a_time[of api m ds _ Released]
  by (auto simp: holds_def)

theorem setMovement_one_direction_witness:
  "zero_memory (0x1000 + Offsets_MouseDownLeft) = Some 0 \<and>
   zero_memory (0x1000 + Offsets_MouseDownRight) = Some 0 \<and>
   one_at_a_time Released [Left, Left, Released, Right] \<and>
   (\<exists>m'. setMovements \<lparr>appBase = 0x1000, walls = []\<rparr> zero_memory [Left, Left, Released, Right] = Inr m' \<and>
      (m' (0x1000 + Offsets_MouseDownLeft) = Some 0 \<or> m' (0x1000 + Offsets_MouseDownRight) = Some 0))"
proof -
  let ?api = "\<lparr>appBase = 0x1000, walls = []\<rparr>"
  have a: "zero_memory (0x1000 + Offsets_MouseDownLeft) = Some 0"
    "zero_memory (0x1000 + Offsets_MouseDownRight) = Some 0"
    by (simp_all add: zero_memory_def)
  have b: "one_at_a_time Released [Left, Left, Released, Right]" by simp
  obtain m' where r: "setMovements ?api zero_memory [Left, Left, Released, Right] = Inr m'"
    by (simp add: setMovement_def StartMovingLeft_def StartMovingRight_def ReleaseMouse_def
        Write_BYTE_eq zero_memory_def)
  show ?thesis
    using setMovement_one_direction[of ?api zero_memory "[Left, Left, Released, Right]"] a b r by auto
qed

section \<open>A slot count of zero\<close>

lemma for_each_wall_zero_slots:
  "for_each_wall 0 mins ws = (if \<exists>a\<in>set ws. live a then Inl DivisionByZero else Inr mins)"
  by (induction ws arbitrary: mins) (auto simp: lower_min_def live_def)

lemma choose_slot_zero_slots:
  assumes "GetNumSlots api m = Inr 0" "walls api \<noteq> []"
  shows "choose_slot api m =
     (if \<exists>a\<in>set (walls api). live a then Inl DivisionByZero else Inr (Some 0))"
  using assms
  by (simp add: choose_slot_def target_slot_def min_distances_def for_each_wall_zero_slots
      max_element_def)

text \<open>
  Claim C10, as stated, fails: with a slot count of 0 and a non-empty list of walls none of
  which counts, the selection takes no remainder and yields slot 0.
\<close>

theorem choose_slot_zero_slots_counterexample:
  "choose_slot \<lparr>appBase = 0x1000, walls = idle_walls\<rparr> zero_memory = Inr (Some 0)"
proof -
  have "GetNumSlots \<lparr>appBase = 0x1000, walls = idle_walls\<rparr> zero_memory = Inr 0"
    by (simp add: GetNumSlots_def Read_DWORD_eq accessible_4 load_4 zero_memory_def
        DWORD_of_bytes_def)
  then show ?thesis
    by (simp add: choose_slot_zero_slots idle_walls_def live_def)
qed

text \<open>
  Claim C10, amended. With a slot count of 0 read from the game, \<open>SetPlayerSlot\<close>
  divides by zero; the selection on a non-empty list takes a remainder by zero exactly when
  some wall is enabled with a positive distance, and yields slot 0 from the empty vector
  otherwise; and the iteration ends in a division by zero either way, in the selection or in
  \<open>SetPlayerSlot\<close>. Nothing guards against the case.
\<close>

theorem zero_slots_division_by_zero:
  assumes "GetNumSlots api m = Inr 0"
  shows "SetPlayerSlot api m slot' = Inl DivisionByZero \<and>
    (walls api \<noteq> [] \<longrightarrow>
       choose_slot api m =
         (if \<exists>a\<in>set (walls api). live a then Inl DivisionByZero else Inr (Some 0))) \<and>
    (\<forall>api0 out a. UpdateWalls api0 m = Inr api \<and> walls api \<noteq> [] \<and> GetWorldAngle api m = Inr a \<longrightarrow>
       loop_body api0 \<lparr>target = m, console = out\<rparr> = Inl DivisionByZero)"
proof -
  have s: "SetPlayerSlot api m slot' = Inl DivisionByZero" for slot'
    using assms by (simp add: SetPlayerSlot_def)
  have c: "walls api \<noteq> [] \<Longrightarrow> choose_slot api m =
         (if \<exists>a\<in>set (walls api). live a then Inl DivisionByZero else Inr (Some 0))"
    by (rule choose_slot_zero_slots[OF assms])
  have "loop_body api0 \<lparr>target = m, console = out\<rparr> = Inl DivisionByZero"
    if "UpdateWalls api0 m = Inr api" and "walls api \<noteq> []" and "GetWorldAngle api m = Inr a"
    for api0 out a
    using that c s by (simp add: loop_body_def)
  then show ?thesis using s c by blast
qed

lemma UpdateWalls_one_wall: "UpdateWalls \<lparr>appBase = 0x1000, walls = []\<rparr> one_wall =
   Inr \<lparr>appBase = 0x1000, walls = [\<lparr>slot = 0, distance = 0, enabled = 0, fill1 = [0, 0, 0], unk2 = 0, unk3 = 0\<rparr>]\<rparr>"
  by code_simp

lemma GetWorldAngle_one_wall: "GetWorldAngle \<lparr>appBase = 0x1000, walls = ws\<rparr> one_wall = Inr 0"
  by (simp add: GetWorldAngle_def Read_DWORD_eq accessible_4 load_4 zero_memory_def one_wall_def
        DWORD_of_bytes_def)

lemma GetNumSlots_one_wall: "GetNumSlots \<lparr>appBase = 0x1000, walls = ws\<rparr> one_wall = Inr 0"
  by (simp add: GetNumSlots_def Read_DWORD_eq accessible_4 load_4 zero_memory_def one_wall_def
        DWORD_of_bytes_def)

theorem zero_slots_division_by_zero_witness:
  "SetPlayerSlot \<lparr>appBase = 0x1000, walls = scenario\<rparr> one_wall 3 = Inl DivisionByZero \<and>
   choose_slot \<lparr>appBase = 0x1000, walls = scenario\<rparr> one_wall = Inl DivisionByZero \<and>
   loop_body \<lparr>appBase = 0x1000, walls = []\<rparr> \<lparr>target = one_wall, console = []\<rparr> = Inl DivisionByZero"
proof -
  let ?dead = "[\<lparr>slot = 0, distance = 0, enabled = 0, fill1 = [0, 0, 0], unk2 = 0, unk3 = 0\<rparr>]"
  have a: "walls \<lparr>appBase = 0x1000, walls = scenario\<rparr> \<noteq> []"
    "\<exists>a\<in>set (walls \<lparr>appBase = 0x1000, walls = scenario\<rparr>). live a"
    by (simp_all add: scenario_def live_def)
  have b: "walls \<lparr>appBase = 0x1000, walls = ?dead\<rparr> \<noteq> []" by simp
  show ?thesis
    using zero_slots_division_by_zero[OF GetNumSlots_one_wall, of scenario 3]
      zero_slots_division_by_zero[OF GetNumSlots_one_wall, of ?dead 3]
      a b UpdateWalls_one_wall GetWorldAngle_one_wall[of ?dead]
    by auto
qed

section \<open>Rounding to single precision\<close>

lemma round_to_even_error: "\<bar>of_int (round_to_even y) - y\<bar> \<le> 1 / 2"
proof -
  have "of_int \<lfloor>y\<rfloor> \<le> y" "y < of_int \<lfloor>y\<rfloor> + 1" by linarith+
  then show ?thesis by (auto simp: round_to_even_def Let_def)
qed

lemma round_to_even_of_int: "round_to_even (of_int k) = k"
  by (simp add: round_to_even_def)

lemma fraction_bounds:
  fixes n d :: int
  assumes n: "0 < n" and d: "0 < d"
  shows "2 powi (bitlen n - bitlen d - 1) < (of_int n / of_int d :: rat)"
    and "(of_int n / of_int d :: rat) < 2 powi (bitlen n - bitlen d + 1)"
proof -
  define x :: rat where "x = of_int n / of_int d"
  define a where "a = bitlen n"
  define b where "b = bitlen d"
  have a1: "1 \<le> a" using n bitlen_eq_zero_iff[of n] bitlen_nonneg[of n] unfolding a_def by linarith
  have b1: "1 \<le> b" using d bitlen_eq_zero_iff[of d] bitlen_nonneg[of d] unfolding b_def by linarith
  have nb: "2 ^ nat (a - 1) \<le> n" "n < 2 ^ nat a" using bitlen_bounds[OF n] unfolding a_def by simp_all
  have db: "2 ^ nat (b - 1) \<le> d" "d < 2 ^ nat b" using bitlen_bounds[OF d] unfolding b_def by simp_all
  have nr: "(2::rat) powi (a - 1) \<le> of_int n" "of_int n < (2::rat) powi a"
  proof -
    have "(of_int (2 ^ nat (a - 1)) :: rat) \<le> of_int n" using nb(1) by (simp only: of_int_le_iff)
    then show "(2::rat) powi (a - 1) \<le> of_int n" using a1 by (simp add: power_int_def)
    have "(of_int n :: rat) < of_int (2 ^ nat a)" using nb(2) by (simp only: of_int_less_iff)
    then show "of_int n < (2::rat) powi a" using a1 by (simp add: power_int_def)
  qed
  have dr: "(2::rat) powi (b - 1) \<le> of_int d" "of_int d < (2::rat) powi b"
  proof -
    have "(of_int (2 ^ nat (b - 1)) :: rat) \<le> of_int d" using db(1) by (simp only: of_int_le_iff)
    then show "(2::rat) powi (b - 1) \<le> of_int d" using b1 by (simp add: power_int_def)
    have "(of_int d :: rat) < of_int (2 ^ nat b)" using db(2) by (simp only: of_int_less_iff)
    then show "of_int d < (2::rat) powi b" using b1 by (simp add: power_int_def)
  qed
  have dpos: "(0::rat) < of_int d" using d by simp
  have "of_int n < (2::rat) powi a" by (rule nr(2))
  also have "\<dots> = 2 powi (a - b + 1) * 2 powi (b - 1)" by (simp flip: power_int_add)
  also have "\<dots> \<le> 2 powi (a - b + 1) * of_int d"
    by (rule mult_left_mono[OF dr(1)]) simp
  finally have "of_int n < 2 powi (a - b + 1) * (of_int d :: rat)" .
  then have up: "x < 2 powi (a - b + 1)" unfolding x_def using dpos by (simp add: pos_divide_less_eq)
  have "(2::rat) powi (a - b - 1) * of_int d < 2 powi (a - b - 1) * 2 powi b"
    by (rule mult_strict_left_mono[OF dr(2)]) simp
  also have "\<dots> = 2 powi (a - 1)" by (simp flip: power_int_add)
  also have "\<dots> \<le> of_int n" by (rule nr(1))
  finally have "(2::rat) powi (a - b - 1) * of_int d < of_int n" .
  then have lo: "2 powi (a - b - 1) < x" unfolding x_def using dpos by (simp add: pos_less_divide_eq)
  show "2 powi (bitlen n - bitlen d - 1) < (of_int n / of_int d :: rat)"
    using lo by (simp add: x_def a_def b_def)
  show "(of_int n / of_int d :: rat) < 2 powi (bitlen n - bitlen d + 1)"
    using up by (simp add: x_def a_def b_def)
qed

lemma exponent_of_bounds:
  assumes "0 < x"
  shows "2 powi (exponent_of x) \<le> x \<and> x < 2 powi (exponent_of x + 1)"
proof -
  obtain n d where q: "quotient_of x = (n, d)" by (cases "quotient_of x")
  have d: "0 < d" using quotient_of_denom_pos[OF q] .
  have x: "x = of_int n / of_int d" using quotient_of_div[OF q] .
  have n: "0 < n" using assms d unfolding x by (simp add: zero_less_divide_iff)
  have lo: "2 powi (bitlen n - bitlen d - 1) < x" and up: "x < 2 powi (bitlen n - bitlen d + 1)"
    unfolding x by (rule fraction_bounds[OF n d])+
  show ?thesis
  proof (cases "2 powi (bitlen n - bitlen d) \<le> x")
    case True
    then have "exponent_of x = bitlen n - bitlen d" by (simp add: exponent_of_def q)
    then show ?thesis using True up by simp
  next
    case False
    then have "exponent_of x = bitlen n - bitlen d - 1" by (simp add: exponent_of_def q)
    then show ?thesis using False lo by simp
  qed
qed

lemma float_round_error:
  assumes "0 < x"
  shows "\<bar>float_round x - x\<bar> \<le> x / 2 ^ 24"
proof -
  define e where "e = exponent_of x"
  define u :: rat where "u = 2 powi (e - 23)"
  have u: "0 < u" by (simp add: u_def)
  have fr: "float_round x = of_int (round_to_even (x / u)) * u"
    using assms by (simp add: float_round_def e_def u_def Let_def)
  have "\<bar>of_int (round_to_even (x / u)) - x / u\<bar> \<le> 1 / 2" by (rule round_to_even_error)
  then have "\<bar>of_int (round_to_even (x / u)) - x / u\<bar> * u \<le> 1 / 2 * u"
    using u by (simp only: mult_le_cancel_right_pos)
  moreover have "\<bar>of_int (round_to_even (x / u)) - x / u\<bar> * u = \<bar>float_round x - x\<bar>"
  proof -
    have "\<bar>of_int (round_to_even (x / u)) - x / u\<bar> * u = \<bar>(of_int (round_to_even (x / u)) - x / u) * u\<bar>"
      using u by (simp add: abs_mult)
    also have "(of_int (round_to_even (x / u)) - x / u) * u = float_round x - x"
      using u by (simp add: fr left_diff_distrib)
    finally show ?thesis .
  qed
  ultimately have 1: "\<bar>float_round x - x\<bar> \<le> u / 2" by simp
  have "u = 2 powi e / 2 ^ 23" by (simp add: u_def power_int_diff)
  then have "u * 2 ^ 23 = 2 powi e" by simp
  also have "\<dots> \<le> x" using exponent_of_bounds[OF assms] by (simp add: e_def)
  finally have "u * 2 ^ 23 \<le> x" .
  then have "u / 2 \<le> x / 2 ^ 24" by simp
  with 1 show ?thesis by linarith
qed

lemma float_round_exact:
  assumes "0 \<le> k" "k < 2 ^ 24"
  shows "float_round (of_int k) = of_int k"
proof (cases "k = 0")
  case True
  then show ?thesis by (simp add: float_round_def)
next
  case False
  then have k: "0 < k" using assms by simp
  define x :: rat where "x = of_int k"
  have x: "0 < x" using k by (simp add: x_def)
  define e where "e = exponent_of x"
  have "2 powi e \<le> x" using exponent_of_bounds[OF x] by (simp add: e_def)
  also have "x < 2 powi 24"
  proof -
    have "(of_int k :: rat) < of_int (2 ^ 24)" using assms(2) by (simp only: of_int_less_iff)
    then show ?thesis by (simp add: x_def)
  qed
  finally have "(2::rat) powi e < 2 powi 24" .
  then have "e < 24" by (rule power_int_le_imp_less_exp[rotated]) simp_all
  then have e: "0 \<le> 23 - e" by simp
  define u :: rat where "u = 2 powi (e - 23)"
  have u: "0 < u" by (simp add: u_def)
  have "u * 2 powi (23 - e) = 2 powi (e - 23 + (23 - e))" unfolding u_def
    by (subst power_int_add) simp_all
  then have "u * 2 powi (23 - e) = 1" by simp
  then have "x / u = x * 2 powi (23 - e)" using u by (simp add: field_simps)
  also have "\<dots> = of_int (k * 2 ^ nat (23 - e))" using e by (simp add: x_def power_int_def)
  finally have "x / u = of_int (k * 2 ^ nat (23 - e))" .
  then have "of_int (round_to_even (x / u)) * u = x / u * u"
    by (simp only: round_to_even_of_int)
  also have "\<dots> = x" using u by simp
  finally have "float_round x = x" using x by (simp add: float_round_def e_def u_def Let_def)
  then show ?thesis by (simp add: x_def)
qed

lemma float_slot_zero:
  assumes "A * N = (0::int)"
  shows "float_round (float_round (float_round (of_int A) / 360) * float_round (of_int N)) = 0"
proof -
  have "A = 0 \<or> N = 0" using assms by simp
  then show ?thesis by (auto simp: float_round_def)
qed

lemma float_slot_close:
  fixes A N :: int
  assumes "0 \<le> A" "0 \<le> N" "A * N \<noteq> 0" "A * N < 2 ^ 23"
  shows "\<bar>float_round (float_round (float_round (of_int A) / 360) * float_round (of_int N))
           - of_int (A * N) / 360\<bar> < 1 / 360"
proof -
  have A1: "1 \<le> A" and N1: "1 \<le> N" using assms(1,2,3) by (auto simp: less_le)
  have "A * 1 \<le> A * N" using N1 assms(1) by (intro mult_left_mono) auto
  then have A24: "A < 2 ^ 24" using assms(4) by simp
  have "1 * N \<le> A * N" using A1 assms(2) by (intro mult_right_mono) auto
  then have N24: "N < 2 ^ 24" using assms(4) by simp
  have fA: "float_round (of_int A) = of_int A" by (rule float_round_exact[OF assms(1) A24])
  have fN: "float_round (of_int N) = of_int N" by (rule float_round_exact[OF assms(2) N24])
  define x :: rat where "x = of_int A / 360"
  define q where "q = float_round x"
  define y where "y = q * of_int N"
  define p where "p = float_round y"
  define v :: rat where "v = of_int (A * N) / 360"
  define t :: rat where "t = v / 2 ^ 24"
  have Nr: "(1::rat) \<le> of_int N" using N1 by simp
  have x0: "0 < x" using A1 by (simp add: x_def)
  have v0: "0 < v" using A1 N1 by (simp add: v_def)
  have vx: "v = x * of_int N" by (simp add: v_def x_def)
  have qe: "\<bar>q - x\<bar> \<le> x / 2 ^ 24" unfolding q_def by (rule float_round_error[OF x0])
  have "x / 2 ^ 24 < x" using x0 by simp
  then have q0: "0 < q" using qe by linarith
  have y0: "0 < y" using q0 Nr by (simp add: y_def)
  have "\<bar>y - v\<bar> = \<bar>q - x\<bar> * of_int N"
  proof -
    have "y - v = (q - x) * of_int N" by (simp add: y_def vx left_diff_distrib)
    then show ?thesis using Nr by (simp add: abs_mult)
  qed
  also have "\<dots> \<le> x / 2 ^ 24 * of_int N" using qe Nr by (intro mult_right_mono) auto
  also have "\<dots> = t" by (simp add: t_def vx)
  finally have yv: "\<bar>y - v\<bar> \<le> t" .
  have pe: "\<bar>p - y\<bar> \<le> y / 2 ^ 24" unfolding p_def by (rule float_round_error[OF y0])
  have "y \<le> v + t" using yv by linarith
  then have "y / 2 ^ 24 \<le> (v + t) / 2 ^ 24" by (simp add: divide_right_mono)
  also have "\<dots> = t + t / 2 ^ 24" by (simp add: t_def add_divide_distrib)
  finally have "\<bar>p - y\<bar> \<le> t + t / 2 ^ 24" using pe by linarith
  then have "\<bar>p - y\<bar> \<le> t + t / 16777216" by simp
  then have pv: "\<bar>p - v\<bar> \<le> 2 * t + t / 16777216" using yv by linarith
  have "A * N \<le> 8388607" using assms(4) by simp
  then have "(of_int (A * N) :: rat) \<le> of_int 8388607" by (simp only: of_int_le_iff)
  then have "v \<le> 8388607 / 360" by (simp add: v_def)
  then have "t \<le> 8388607 / 360 / 16777216" unfolding t_def by (simp add: divide_right_mono)
  then have "\<bar>p - v\<bar> < 1 / 360" using pv by linarith
  then show ?thesis by (simp add: p_def y_def q_def x_def v_def fA fN)
qed

lemma float_slot_floor:
  fixes A N :: int
  assumes "0 \<le> A" "0 \<le> N" "A * N < 2 ^ 23"
  defines "p \<equiv> float_round (float_round (float_round (of_int A) / 360) * float_round (of_int N))"
  shows "p < 2 ^ 23"
    and "\<lfloor>p\<rfloor> = A * N div 360 \<or> \<lfloor>p\<rfloor> = A * N div 360 - 1"
    and "A * N = 0 \<or> \<not> 360 dvd A * N \<Longrightarrow> \<lfloor>p\<rfloor> = A * N div 360"
    and "0 \<le> \<lfloor>p\<rfloor>"
proof -
  define k where "k = A * N div 360"
  define r where "r = A * N mod 360"
  define v :: rat where "v = of_int (A * N) / 360"
  have r: "0 \<le> r" "r \<le> 359" by (simp_all add: r_def)
  have k0: "0 \<le> k" unfolding k_def using assms(1,2) by (simp add: pos_imp_zdiv_nonneg_iff)
  have eq: "A * N = 360 * k + r" by (simp add: k_def r_def)
  then have "(of_int (A * N) :: rat) = 360 * of_int k + of_int r"
    by (simp only: of_int_add of_int_mult of_int_numeral)
  then have vk: "v = of_int k + of_int r / 360" by (simp add: v_def field_simps)
  have rr: "(0::rat) \<le> of_int r" "(of_int r :: rat) \<le> 359" using r by simp_all
  have all: "p < 2 ^ 23 \<and> (\<lfloor>p\<rfloor> = k \<or> \<lfloor>p\<rfloor> = k - 1) \<and> (A * N = 0 \<or> r \<noteq> 0 \<longrightarrow> \<lfloor>p\<rfloor> = k) \<and> 0 \<le> \<lfloor>p\<rfloor>"
  proof (cases "A * N = 0")
    case True
    have "p = 0" unfolding p_def by (rule float_slot_zero[OF True])
    moreover have "k = 0" unfolding k_def True by simp
    ultimately show ?thesis by simp
  next
    case False
    have close: "\<bar>p - v\<bar> < 1 / 360"
      unfolding p_def v_def by (rule float_slot_close[OF assms(1,2) False assms(3)])
    have hi: "p < of_int k + 1" using close vk rr by (simp add: abs_less_iff field_simps)
    have "k < 2 ^ 23" using eq r(1) assms(3) k0 by linarith
    then have "k + 1 \<le> 2 ^ 23" by simp
    then have "(of_int (k + 1) :: rat) \<le> of_int (2 ^ 23)" by (simp only: of_int_le_iff)
    then have b: "p < 2 ^ 23" using hi by simp
    show ?thesis
    proof (cases "r = 0")
      case True
      have "k \<noteq> 0" using eq True False by auto
      then have k1: "1 \<le> k" using k0 by simp
      have vk0: "v = of_int k" using vk True by simp
      have "of_int k - 1 < p" using close unfolding vk0 by linarith
      then have lo: "of_int (k - 1) \<le> p" by simp
      have f1: "k - 1 \<le> \<lfloor>p\<rfloor>" using lo by (simp only: le_floor_iff)
      have "p < of_int (k + 1)" using hi by simp
      then have f2: "\<lfloor>p\<rfloor> < k + 1" by (simp only: floor_less_iff)
      have f3: "\<lfloor>p\<rfloor> = k \<or> \<lfloor>p\<rfloor> = k - 1" using f1 f2 by linarith
      have f4: "0 \<le> \<lfloor>p\<rfloor>" using f1 k1 by linarith
      have f5: "\<not> (A * N = 0 \<or> r \<noteq> 0)" using True False by simp
      show ?thesis using b f3 f4 f5 by blast
    next
      case nz: False
      then have "1 \<le> r" using r(1) by simp
      then have r1: "(1::rat) \<le> of_int r" by simp
      have lo: "of_int k < p" using close vk r1 by (simp add: abs_less_iff field_simps)
      have "\<lfloor>p\<rfloor> = k" using lo hi by (intro floor_unique) auto
      then show ?thesis using b k0 by simp
    qed
  qed
  show "p < 2 ^ 23" using all by simp
  show "\<lfloor>p\<rfloor> = A * N div 360 \<or> \<lfloor>p\<rfloor> = A * N div 360 - 1" using all by (simp add: k_def)
  show "\<lfloor>p\<rfloor> = A * N div 360" if "A * N = 0 \<or> \<not> 360 dvd A * N"
    using all that by (auto simp: k_def r_def dvd_eq_mod_eq_0)
  show "0 \<le> \<lfloor>p\<rfloor>" using all by simp
qed

section \<open>Evaluating the rounding on numerals\<close>

text \<open>
  The exponent and the nearest integer of a quotient of two numerals, by integer arithmetic
  alone, so that the rounding of a given quotient is computed by rewriting.
\<close>

lemma exponent_of_unique:
  assumes "0 < x" "2 powi e \<le> x" "x < 2 powi (e + 1)"
  shows "exponent_of x = e"
proof -
  have b: "2 powi (exponent_of x) \<le> x" "x < 2 powi (exponent_of x + 1)"
    using exponent_of_bounds[OF assms(1)] by simp_all
  have "(2::rat) powi e < 2 powi (exponent_of x + 1)" using assms(2) b(2) by linarith
  then have 1: "e < exponent_of x + 1"
    by (metis linorder_not_less one_le_numeral order.strict_iff_not power_int_increasing)
  have "(2::rat) powi (exponent_of x) < 2 powi (e + 1)" using assms(3) b(1) by linarith
  then have 2: "exponent_of x < e + 1"
    by (metis linorder_not_less one_le_numeral order.strict_iff_not power_int_increasing)
  show ?thesis using 1 2 by simp
qed

lemma exponent_of_fraction:
  assumes "0 < n" "0 < d"
  shows "exponent_of (of_int n / of_int d) =
     (if 2 powi (bitlen n - bitlen d) \<le> (of_int n / of_int d :: rat)
      then bitlen n - bitlen d else bitlen n - bitlen d - 1)"
proof -
  have x: "(0::rat) < of_int n / of_int d" using assms by simp
  note fb = fraction_bounds[OF assms]
  show ?thesis
  proof (cases "2 powi (bitlen n - bitlen d) \<le> (of_int n / of_int d :: rat)")
    case True
    then show ?thesis using exponent_of_unique[OF x True] fb(2) by simp
  next
    case False
    have "exponent_of (of_int n / of_int d) = bitlen n - bitlen d - 1"
      by (rule exponent_of_unique[OF x]) (use fb(1) False in auto)
    then show ?thesis using False by simp
  qed
qed

lemma bitlen_numeral:
  "bitlen (numeral a) = bitlen (numeral a div 2) + 1"
  by (subst compute_bitlen) simp

lemma bitlen_one: "bitlen 1 = 1"
  by (subst compute_bitlen) simp

lemma exponent_of_numeral_div:
  "exponent_of (numeral a / numeral b) =
     (if 2 powi (bitlen (numeral a) - bitlen (numeral b)) \<le> (numeral a / numeral b :: rat)
      then bitlen (numeral a) - bitlen (numeral b) else bitlen (numeral a) - bitlen (numeral b) - 1)"
  using exponent_of_fraction[of "numeral a" "numeral b"] by simp

lemma exponent_of_numeral:
  "exponent_of (numeral a) =
     (if 2 powi (bitlen (numeral a) - 1) \<le> (numeral a :: rat)
      then bitlen (numeral a) - 1 else bitlen (numeral a) - 1 - 1)"
  using exponent_of_fraction[of "numeral a" 1] bitlen_one by simp

lemma round_to_even_fraction:
  fixes n d :: int
  assumes "0 < d"
  shows "round_to_even (of_int n / of_int d) =
     (if 2 * (n mod d) < d then n div d
      else if d < 2 * (n mod d) then n div d + 1
      else if even (n div d) then n div d else n div d + 1)"
proof -
  define x :: rat where "x = of_int n / of_int d"
  have dr: "(0::rat) < of_int d" using assms by simp
  have f: "\<lfloor>x\<rfloor> = n div d" unfolding x_def by (rule floor_divide_of_int_eq)
  have "n = d * (n div d) + n mod d" by simp
  then have "(of_int n :: rat) = of_int d * of_int (n div d) + of_int (n mod d)"
    by (metis of_int_add of_int_mult)
  then have r: "x - of_int (n div d) = of_int (n mod d) / of_int d"
    unfolding x_def using dr by (simp add: field_simps)
  have lt: "x - of_int (n div d) < 1 / 2 \<longleftrightarrow> 2 * (n mod d) < d"
  proof -
    have "x - of_int (n div d) < 1 / 2 \<longleftrightarrow> (of_int (2 * (n mod d)) :: rat) < of_int d"
      unfolding r using dr by (simp add: field_simps)
    then show ?thesis by (simp only: of_int_less_iff)
  qed
  have gt: "1 / 2 < x - of_int (n div d) \<longleftrightarrow> d < 2 * (n mod d)"
  proof -
    have "1 / 2 < x - of_int (n div d) \<longleftrightarrow> (of_int d :: rat) < of_int (2 * (n mod d))"
      unfolding r using dr by (simp add: field_simps)
    then show ?thesis by (simp only: of_int_less_iff)
  qed
  have "round_to_even x =
     (if x - of_int (n div d) < 1 / 2 then n div d
      else if 1 / 2 < x - of_int (n div d) then n div d + 1
      else if even (n div d) then n div d else n div d + 1)"
    by (simp only: round_to_even_def Let_def f)
  then show ?thesis unfolding x_def[symmetric] by (simp only: lt gt)
qed

lemma floor_numeral_div:
  "\<lfloor>numeral a / numeral b :: rat\<rfloor> = numeral a div numeral b"
  using floor_divide_of_int_eq[of "numeral a" "numeral b", where ?'a = rat] by simp

lemma round_to_even_numeral_div:
  "round_to_even (numeral a / numeral b) =
     (if 2 * (numeral a mod numeral b) < (numeral b :: int) then numeral a div numeral b
      else if (numeral b :: int) < 2 * (numeral a mod numeral b) then numeral a div numeral b + 1
      else if even (numeral a div numeral b :: int) then numeral a div numeral b
      else numeral a div numeral b + 1)"
  using round_to_even_fraction[of "numeral b" "numeral a"] by simp

lemma round_to_even_numeral: "round_to_even (numeral a) = numeral a"
  using round_to_even_of_int[of "numeral a"] by simp

lemma exponent_of_one_div_numeral:
  "exponent_of (1 / numeral b) =
     (if 2 powi (1 - bitlen (numeral b)) \<le> (1 / numeral b :: rat)
      then 1 - bitlen (numeral b) else 1 - bitlen (numeral b) - 1)"
  using exponent_of_fraction[of 1 "numeral b"] bitlen_one by simp

lemma exponent_of_one: "exponent_of 1 = 0"
  by (rule exponent_of_unique) simp_all

lemma gcd_numeral_step:
  "gcd (numeral a) (numeral b :: int) = gcd (numeral b) (numeral a mod numeral b)"
  by (metis gcd_red_int)

lemma upto_from_1: "[1..numeral n] = 1 # [2..numeral n]"
  by (subst upto_rec1) simp_all

lemmas float_eval =
  float_round_def Let_def exponent_of_numeral_div exponent_of_numeral exponent_of_one_div_numeral
  exponent_of_one bitlen_numeral bitlen_one round_to_even_numeral_div round_to_even_numeral
  floor_numeral_div

section \<open>The slot boundaries of up to 107 slots\<close>

text \<open>
  For each slot count from 1 to 107 the arithmetic of \<open>GetPlayerSlot\<close> is evaluated at
  every slot boundary below 360; none of the 833 rounded products falls below its whole
  number. With 108 slots the boundary 210 does.
\<close>

lemma boundaries_1_36: "list_all slot_boundaries_exact [1..36]"
  apply (simp add: upto_from_1)
  apply (simp add: slot_boundaries_exact_def upto_from_1 gcd_numeral_step float_eval)
  done

lemma boundaries_37_60: "list_all slot_boundaries_exact [37..60]"
  apply simp
  apply (simp add: slot_boundaries_exact_def upto_from_1 gcd_numeral_step float_eval)
  done

lemma boundaries_61_81: "list_all slot_boundaries_exact [61..81]"
  apply simp
  apply (simp add: slot_boundaries_exact_def upto_from_1 gcd_numeral_step float_eval)
  done

lemma boundaries_82_107: "list_all slot_boundaries_exact [82..107]"
  apply simp
  apply (simp add: slot_boundaries_exact_def upto_from_1 gcd_numeral_step float_eval)
  done

lemma slot_boundaries_exact_all:
  assumes "1 \<le> n" "n \<le> 107"
  shows "slot_boundaries_exact n"
proof -
  have "n \<in> set [1..36] \<or> n \<in> set [37..60] \<or> n \<in> set [61..81] \<or> n \<in> set [82..107]"
    using assms unfolding set_upto atLeastAtMost_iff by linarith
  then show ?thesis
    using boundaries_1_36 boundaries_37_60 boundaries_61_81 boundaries_82_107
    unfolding list_all_iff by blast
qed

lemma boundary_angle:
  fixes a n :: int
  assumes "0 < a" "a < 360" "360 dvd a * n"
  shows "\<exists>j\<in>set [1..gcd 360 n - 1]. a = j * (360 div gcd 360 n)"
proof -
  define g where "g = gcd 360 n"
  define c where "c = 360 div g"
  define n' where "n' = n div g"
  have g0: "0 < g" unfolding g_def by (simp add: gcd_pos_int)
  have gc: "g * c = 360" unfolding c_def g_def by simp
  have gn: "g * n' = n" unfolding n'_def g_def by simp
  have cop: "coprime c n'" unfolding c_def n'_def g_def by (rule div_gcd_coprime) simp
  have "g * c dvd g * (a * n')" using assms(3) gc gn by (simp add: mult.left_commute)
  then have "c dvd a * n'" using g0 by simp
  then have "c dvd a" using cop by (simp add: coprime_dvd_mult_left_iff)
  then obtain j where j: "a = j * c" by (auto simp: dvd_def mult.commute)
  have c0: "0 < c" using gc g0 by (metis zero_less_mult_pos zero_less_numeral)
  have "0 < j" using assms(1) c0 unfolding j by (simp add: zero_less_mult_iff)
  moreover have "j * c < g * c" using assms(2) unfolding j gc .
  then have "j < g" using c0 by simp
  ultimately have "j \<in> set [1..g - 1]" by simp
  then show ?thesis using j unfolding g_def c_def by blast
qed

lemma float_slot_boundary:
  fixes A N :: int
  assumes "0 < A" "A < 360" "1 \<le> N" "N \<le> 107" "360 dvd A * N"
  shows "\<lfloor>float_round (float_round (float_round (of_int A) / 360) * float_round (of_int N))\<rfloor>
           = A * N div 360"
proof -
  have fA: "float_round (of_int A) = of_int A" using assms(1,2) by (intro float_round_exact) simp_all
  have fN: "float_round (of_int N) = of_int N" using assms(3,4) by (intro float_round_exact) simp_all
  obtain j where j: "j \<in> set [1..gcd 360 N - 1]" "A = j * (360 div gcd 360 N)"
    using boundary_angle[OF assms(1,2,5)] by blast
  have "\<lfloor>float_round (float_round (of_int (j * (360 div gcd 360 N)) / 360) * of_int N)\<rfloor>
          = j * (360 div gcd 360 N) * N div 360"
    using slot_boundaries_exact_all[OF assms(3,4)] j(1)
    unfolding slot_boundaries_exact_def list_all_iff by blast
  then have "\<lfloor>float_round (float_round (of_int A / 360) * of_int N)\<rfloor> = A * N div 360"
    by (simp only: j(2)[symmetric])
  then show ?thesis by (simp only: fA fN)
qed

lemma GetPlayerSlot_result:
  assumes "GetPlayerAngle api m = Inr a" "GetNumSlots api m = Inr n"
    "unat a * unat n < 2 ^ 23"
  shows "\<exists>s. GetPlayerSlot api m = Inr s \<and>
           (unat s = unat a * unat n div 360 \<or> unat s + 1 = unat a * unat n div 360) \<and>
           (unat a * unat n = 0 \<or> \<not> 360 dvd unat a * unat n \<or> (unat a < 360 \<and> unat n \<le> 107)
              \<longrightarrow> unat s = unat a * unat n div 360)"
proof -
  define A where "A = uint a"
  define N where "N = uint n"
  define p where "p = float_round (float_round (float_round (of_int A) / 360) * float_round (of_int N))"
  define M where "M = unat a * unat n"
  define K where "K = M div 360"
  have Aa: "A = int (unat a)" and Nn: "N = int (unat n)" by (simp_all add: A_def N_def)
  have AN: "A * N = int M" by (simp add: A_def N_def M_def)
  have M: "M < 2 ^ 23" using assms(3) by (simp add: M_def)
  have A0: "0 \<le> A" and N0: "0 \<le> N" by (simp_all add: A_def N_def)
  have "int M < int (2 ^ 23)" using M by (simp only: of_nat_less_iff)
  then have b: "A * N < 2 ^ 23" unfolding AN by simp
  have dv: "360 dvd A * N \<longleftrightarrow> 360 dvd M"
  proof -
    have "int 360 dvd int M \<longleftrightarrow> 360 dvd M" by (simp only: int_dvd_int_iff)
    then show ?thesis unfolding AN by simp
  qed
  have dK: "A * N div 360 = int K" unfolding AN K_def by (simp add: zdiv_int)
  have p1: "p < 2 ^ 23" unfolding p_def by (rule float_slot_floor(1)[OF A0 N0 b])
  have p2: "\<lfloor>p\<rfloor> = int K \<or> \<lfloor>p\<rfloor> = int K - 1"
    using float_slot_floor(2)[OF A0 N0 b] unfolding p_def dK .
  have p3: "\<lfloor>p\<rfloor> = int K" if "M = 0 \<or> \<not> 360 dvd M"
  proof -
    have z: "A * N = 0 \<longleftrightarrow> M = 0" unfolding AN by simp
    have "A * N = 0 \<or> \<not> 360 dvd A * N" unfolding z dv by (rule that)
    then show ?thesis using float_slot_floor(3)[OF A0 N0 b] unfolding p_def dK by blast
  qed
  have p4: "0 \<le> \<lfloor>p\<rfloor>" unfolding p_def by (rule float_slot_floor(4)[OF A0 N0 b])
  have p5: "\<lfloor>p\<rfloor> = int K" if d: "360 dvd M" and nz: "M \<noteq> 0" and r: "unat a < 360" "unat n \<le> 107"
  proof -
    have an: "unat a \<noteq> 0" "unat n \<noteq> 0" using nz by (auto simp: M_def)
    have 1: "0 < A" using an(1) unfolding Aa by linarith
    have 2: "A < 360" using r(1) unfolding Aa by linarith
    have 3: "1 \<le> N" using an(2) unfolding Nn by linarith
    have 4: "N \<le> 107" using r(2) unfolding Nn by linarith
    have 5: "360 dvd A * N" using d unfolding dv .
    show ?thesis using float_slot_boundary[OF 1 2 3 4 5] unfolding p_def dK .
  qed
  have "p < 2 ^ 32" using p1 by simp
  then have g: "GetPlayerSlot api m = Inr (of_int \<lfloor>p\<rfloor>)"
    using assms(1,2) by (simp add: GetPlayerSlot_def Let_def p_def A_def N_def)
  define s where "s = nat \<lfloor>p\<rfloor>"
  have ps: "\<lfloor>p\<rfloor> = int s" using p4 by (simp add: s_def)
  have sK: "s = K \<or> s + 1 = K" using p2 unfolding ps by linarith
  have "K \<le> M" unfolding K_def by (rule div_le_dividend)
  then have "s < 2 ^ 32" using sK M by auto
  then have u: "unat (of_int \<lfloor>p\<rfloor> :: DWORD) = s" unfolding ps by (simp add: unat_of_nat)
  have e1: "s = K" if "M = 0 \<or> \<not> 360 dvd M \<or> (unat a < 360 \<and> unat n \<le> 107)"
  proof (cases "M = 0 \<or> \<not> 360 dvd M")
    case True
    then show ?thesis using p3 unfolding ps by simp
  next
    case False
    then show ?thesis using that p5 unfolding ps by simp
  qed
  show ?thesis using g u sK e1 unfolding M_def[symmetric] K_def[symmetric] by (simp add: K_def)
qed

section \<open>\<open>GetPlayerSlot\<close>\<close>

text \<open>
  Claim C6, as stated, fails: with the angle 210 and 108 slots the exact quotient
  \<open>210 * 108 / 360\<close> is 63, but the rounded quotient \<open>210 / 360\<close> lies below the exact
  one, the rounded product lies below 63, and \<open>GetPlayerSlot\<close> returns 62. With the angle
  23057 and 487 slots the exact quotient lies \<open>1 / 360\<close> below 31191 and the rounded product
  is 31191, above the floor 31190. And with angle and slot count both \<open>0xFFFFFFFF\<close> the
  product does not fit a \<open>DWORD\<close> at all.
\<close>

theorem GetPlayerSlot_rounds_down_counterexample:
  "GetPlayerSlot \<lparr>appBase = 0x1000, walls = []\<rparr> angle_210_of_108 = Inr 62 \<and>
   \<lfloor>(210 * 108 / 360 :: rat)\<rfloor> = 63 \<and>
   GetPlayerSlot \<lparr>appBase = 0x1000, walls = []\<rparr> angle_23057_of_487 = Inr 31191 \<and>
   \<lfloor>(23057 * 487 / 360 :: rat)\<rfloor> = 31190 \<and>
   GetPlayerSlot \<lparr>appBase = 0x1000, walls = []\<rparr> ones_memory = Inl FloatToIntOutOfRange"
  by code_simp

text \<open>
  Claim C6, amended. When the product of angle and slot count is below \<open>2 ^ 23\<close>,
  \<open>GetPlayerSlot\<close> returns a slot, and that slot is the floor of the exact rational
  \<open>angle * slotCount / 360\<close>

    \<^item> whenever the product is zero or not a multiple of 360: the two roundings move the
      product by less than \<open>1 / 360\<close>, the least distance of a quotient that is not whole
      from a whole number;

    \<^item> at every slot boundary (a product that is a multiple of 360) with an angle below 360
      and at most 107 slots: 210 of 108 slots is the first boundary that fails.

  At any other slot boundary the slot is the exact quotient or one less.
\<close>

theorem GetPlayerSlot_floor:
  assumes "GetPlayerAngle api m = Inr a" "GetNumSlots api m = Inr n"
    "unat a * unat n < 2 ^ 23"
  shows "\<exists>s. GetPlayerSlot api m = Inr s \<and>
           (unat a * unat n = 0 \<or> \<not> 360 dvd unat a * unat n \<or> (unat a < 360 \<and> unat n \<le> 107)
              \<longrightarrow> int (unat s) = \<lfloor>rat_of_nat (unat a) * rat_of_nat (unat n) / 360\<rfloor>) \<and>
           (int (unat s) = \<lfloor>rat_of_nat (unat a) * rat_of_nat (unat n) / 360\<rfloor> \<or>
            int (unat s) = \<lfloor>rat_of_nat (unat a) * rat_of_nat (unat n) / 360\<rfloor> - 1)"
proof -
  have "rat_of_nat (unat a) * rat_of_nat (unat n) / 360 = of_nat (unat a * unat n) / of_nat 360"
    by (simp only: of_nat_mult of_nat_numeral)
  then have f: "\<lfloor>rat_of_nat (unat a) * rat_of_nat (unat n) / 360\<rfloor> = int (unat a * unat n div 360)"
    by (simp only: floor_divide_of_nat_eq)
  obtain s where s: "GetPlayerSlot api m = Inr s"
    "unat s = unat a * unat n div 360 \<or> unat s + 1 = unat a * unat n div 360"
    "unat a * unat n = 0 \<or> \<not> 360 dvd unat a * unat n \<or> (unat a < 360 \<and> unat n \<le> 107)
       \<longrightarrow> unat s = unat a * unat n div 360"
    using GetPlayerSlot_result[OF assms] by blast
  have h: "int (unat s) = int (unat a * unat n div 360) \<or> int (unat s) = int (unat a * unat n div 360) - 1"
    using s(2) by linarith
  have e: "unat a * unat n = 0 \<or> \<not> 360 dvd unat a * unat n \<or> (unat a < 360 \<and> unat n \<le> 107)
       \<longrightarrow> int (unat s) = int (unat a * unat n div 360)"
    using s(3) by metis
  show ?thesis unfolding f using s(1) h e by blast
qed

lemma GetPlayerAngle_100: "GetPlayerAngle \<lparr>appBase = 0x1000, walls = []\<rparr> angle_100_of_6 = Inr 100"
  by code_simp
lemma GetNumSlots_100: "GetNumSlots \<lparr>appBase = 0x1000, walls = []\<rparr> angle_100_of_6 = Inr 6"
  by code_simp
lemma GetPlayerAngle_60: "GetPlayerAngle \<lparr>appBase = 0x1000, walls = []\<rparr> angle_60_of_6 = Inr 60"
  by code_simp
lemma GetNumSlots_60: "GetNumSlots \<lparr>appBase = 0x1000, walls = []\<rparr> angle_60_of_6 = Inr 6"
  by code_simp

theorem GetPlayerSlot_floor_witness:
  "GetPlayerSlot \<lparr>appBase = 0x1000, walls = []\<rparr> angle_60_of_6 = Inr 1 \<and>
   \<lfloor>(60 * 6 / 360 :: rat)\<rfloor> = 1 \<and>
   GetPlayerSlot \<lparr>appBase = 0x1000, walls = []\<rparr> angle_100_of_6 = Inr 1 \<and>
   \<lfloor>(100 * 6 / 360 :: rat)\<rfloor> = 1"
proof -
  have b: "unat (60 :: DWORD) * unat (6 :: DWORD) < 2 ^ 23"
    "unat (100 :: DWORD) * unat (6 :: DWORD) < 2 ^ 23" by simp_all
  obtain s where s: "GetPlayerSlot \<lparr>appBase = 0x1000, walls = []\<rparr> angle_60_of_6 = Inr s"
    "unat (60 :: DWORD) * unat (6 :: DWORD) = 0 \<or> \<not> 360 dvd unat (60 :: DWORD) * unat (6 :: DWORD) \<or>
       (unat (60 :: DWORD) < 360 \<and> unat (6 :: DWORD) \<le> 107)
     \<longrightarrow> int (unat s) = \<lfloor>rat_of_nat (unat (60 :: DWORD)) * rat_of_nat (unat (6 :: DWORD)) / 360\<rfloor>"
    using GetPlayerSlot_floor[OF GetPlayerAngle_60 GetNumSlots_60 b(1)] by blast
  have "int (unat s) = 1" using s(2) by simp
  then have "unat s = 1" by linarith
  then have s1: "s = 1" by (simp add: word_unat_eq_iff)
  obtain t where t: "GetPlayerSlot \<lparr>appBase = 0x1000, walls = []\<rparr> angle_100_of_6 = Inr t"
    "unat (100 :: DWORD) * unat (6 :: DWORD) = 0 \<or> \<not> 360 dvd unat (100 :: DWORD) * unat (6 :: DWORD) \<or>
       (unat (100 :: DWORD) < 360 \<and> unat (6 :: DWORD) \<le> 107)
     \<longrightarrow> int (unat t) = \<lfloor>rat_of_nat (unat (100 :: DWORD)) * rat_of_nat (unat (6 :: DWORD)) / 360\<rfloor>"
    using GetPlayerSlot_floor[OF GetPlayerAngle_100 GetNumSlots_100 b(2)] by blast
  have "int (unat t) = 1" using t(2) by (simp add: floor_numeral_div)
  then have "unat t = 1" by linarith
  then have t1: "t = 1" by (simp add: word_unat_eq_iff)
  show ?thesis using s(1) t(1) unfolding s1 t1 by (simp add: floor_numeral_div)
qed

section \<open>Setting the slot and reading it back\<close>

text \<open>
  Claim C5. \<open>SetPlayerSlot\<close> is to move the player into the centre of the given slot (the
  comment in its body), the slot that \<open>GetPlayerSlot\<close> then reads. It takes the
  whole-number quotients \<open>360 div n\<close> and \<open>180 div n\<close> before it multiplies, and with
  19 slots they fall short: \<open>SetPlayerSlot(10)\<close> writes \<open>360 div 19 * 10 + 180 div 19 = 189\<close>,
  an angle of slot 9, and \<open>GetPlayerSlot\<close> returns 9. The angle
  \<open>(360 * 10 + 180) div 19 = 198\<close>, with the division last, lies in slot 10.
\<close>

theorem SetPlayerSlot_off_centre:
  "set_then_angle \<lparr>appBase = 0x1000, walls = []\<rparr> nineteen_slots 10 = Inr 189 \<and>
   set_then_get \<lparr>appBase = 0x1000, walls = []\<rparr> nineteen_slots 10 = Inr 9 \<and>
   GetPlayerSlot \<lparr>appBase = 0x1000, walls = []\<rparr> angle_198_of_19 = Inr 10"
  by code_simp

text \<open>
  Up to 18 slots the quotients taken first do no harm: the angle written lies in the slot
  asked for, and \<open>GetPlayerSlot\<close> reads that slot back.
\<close>

lemma small_slot_counts:
  fixes n k :: nat
  assumes "1 \<le> n" "n \<le> 18" "k < n"
  shows "360 mod n * k < 180 div n * n"
proof -
  have all: "\<forall>n\<in>set [1..<19]. 360 mod n * (n - 1) < 180 div n * n" by code_simp
  have "n \<in> set [1..<19]" using assms by simp
  then have "360 mod n * (n - 1) < 180 div n * n" using all by blast
  moreover have "360 mod n * k \<le> 360 mod n * (n - 1)" using assms(3) by (intro mult_left_mono) auto
  ultimately show ?thesis by linarith
qed

lemma roundtrip_arith:
  fixes n k :: nat
  assumes "k < n" "360 mod n * k < 180 div n * n"
  shows "(360 div n * k + 180 div n) * n div 360 = k"
    and "\<not> 360 dvd (360 div n * k + 180 div n) * n"
    and "(360 div n * k + 180 div n) * n < 2 ^ 23"
proof -
  define r where "r = 360 mod n"
  define b where "b = 180 div n"
  define c where "c = 360 div n"
  have n0: "0 < n" using assms(1) by simp
  have cn: "c * n + r = 360" unfolding c_def r_def by simp
  have bn: "b * n \<le> 180" unfolding b_def by simp
  have rk: "r * k < b * n" using assms(2) by (simp add: r_def b_def)
  have "(c * k + b) * n + r * k = (c * n + r) * k + b * n" by (simp add: algebra_simps)
  then have e: "(c * k + b) * n + r * k = 360 * k + b * n" by (simp only: cn)
  define d where "d = b * n - r * k"
  have d: "0 < d" "d \<le> 180" "d + r * k = b * n" using rk bn by (simp_all add: d_def)
  have v: "(c * k + b) * n = 360 * k + d" using e d(3) by linarith
  have "0 < b" using rk by (cases "b = 0") auto
  then have "n \<le> 180" unfolding b_def by (metis div_greater_zero_iff)
  then have k: "k < 180" using assms(1) by simp
  show "(360 div n * k + 180 div n) * n div 360 = k"
    using v d by (simp add: c_def b_def)
  have "(360 * k + d) mod 360 = d" using d by simp
  then have "\<not> 360 dvd 360 * k + d" using d(1) by (simp add: dvd_eq_mod_eq_0)
  then show "\<not> 360 dvd (360 div n * k + 180 div n) * n"
    using v by (simp add: c_def b_def)
  have "360 * k + d < 2 ^ 23" using k d(2) by simp
  then show "(360 div n * k + 180 div n) * n < 2 ^ 23"
    using v by (simp add: c_def b_def)
qed

lemma set_then_get_small_slot_count:
  assumes "GetNumSlots api m = Inr n" "n \<noteq> 0" "k < n"
    "unat n \<le> 18"
    "accessible m (appBase api + Offsets_PlayerAngle) 4"
    "accessible m (appBase api + Offsets_PlayerAngle2) 4"
  shows "set_then_get api m k = Inr k"
proof -
  define angle where "angle = 360 div n * (k mod n) + 180 div n"
  have kn: "unat k < unat n" using assms(3) by (simp add: word_less_nat_alt)
  have n1: "1 \<le> unat n" using assms(2) by (simp add: unat_gt_0 Suc_le_eq)
  have cond: "360 mod unat n * unat k < 180 div unat n * unat n"
    by (rule small_slot_counts[OF n1 assms(4) kn])
  note ar = roundtrip_arith[OF kn cond]
  have ua: "unat angle = 360 div unat n * unat k + 180 div unat n"
    using SetPlayerSlot_result[OF assms(1,2) angle_def] kn by simp
  obtain m' where m': "SetPlayerSlot api m k = Inr m'"
    "Read_DWORD m' (appBase api + Offsets_PlayerAngle) = Inr angle"
    "\<forall>x. (\<forall>i<8. x \<noteq> appBase api + Offsets_PlayerAngle2 + of_nat i) \<longrightarrow> m' x = m x"
    using SetPlayerSlot_result[OF assms(1,2) angle_def] assms(5,6) by auto
  have fr: "m' (appBase api + Offsets_NumSlots + j) = m (appBase api + Offsets_NumSlots + j)"
    if "j < 4" for j :: DWORD
  proof -
    have "\<forall>i<8. appBase api + Offsets_NumSlots + j \<noteq> appBase api + Offsets_PlayerAngle2 + of_nat i"
    proof (intro allI impI)
      fix i :: nat assume i: "i < 8"
      have "unat j < 4" using that by (simp add: word_less_nat_alt)
      have "Offsets_NumSlots + j \<noteq> Offsets_PlayerAngle2 + of_nat i"
      proof
        assume "Offsets_NumSlots + j = Offsets_PlayerAngle2 + of_nat i"
        then have "unat (Offsets_NumSlots + j) = unat (Offsets_PlayerAngle2 + (of_nat i :: DWORD))" by simp
        moreover have "unat (Offsets_NumSlots + j) = 444 + unat j"
          using \<open>unat j < 4\<close> by (simp add: unat_word_ariths)
        moreover have "unat (Offsets_PlayerAngle2 + (of_nat i :: DWORD)) = 10580 + i"
          using i by (simp add: unat_word_ariths unat_of_nat)
        ultimately show False using \<open>unat j < 4\<close> by simp
      qed
      then show "appBase api + Offsets_NumSlots + j \<noteq> appBase api + Offsets_PlayerAngle2 + of_nat i"
        by (simp add: add.assoc)
    qed
    then show ?thesis using m'(3) by blast
  qed
  have "Read_DWORD m' (appBase api + Offsets_NumSlots) = Read_DWORD m (appBase api + Offsets_NumSlots)"
    using fr[of 0] fr[of 1] fr[of 2] fr[of 3] by (intro Read_DWORD_cong) simp_all
  then have gn: "GetNumSlots api m' = Inr n" using assms(1) by (simp add: GetNumSlots_def)
  have ga: "GetPlayerAngle api m' = Inr angle" using m'(2) by (simp add: GetPlayerAngle_def)
  have b: "unat angle * unat n < 2 ^ 23" using ar(3) by (simp add: ua)
  have "\<not> 360 dvd unat angle * unat n" using ar(2) by (simp add: ua)
  then have "\<exists>s. GetPlayerSlot api m' = Inr s \<and> unat s = unat angle * unat n div 360"
    using GetPlayerSlot_result[OF ga gn b] by blast
  then obtain s where s: "GetPlayerSlot api m' = Inr s" "unat s = unat k"
    using ar(1) by (auto simp: ua)
  then have "s = k" by (simp add: word_unat_eq_iff)
  then show ?thesis using s(1) m'(1) by (simp add: set_then_get_def)
qed

end
